theory Spec2Isabelle
  imports Complex_Main "HOL-Library.Word"
begin

unbundle bit_operations_syntax

section \<open>Values of the program\<close>

text \<open>
  A \<open>Uint8Array\<close> is a list of 8-bit words. A JavaScript string is a sequence of 16-bit
  code units; literals of the source are written through \<open>js\<close>. The operands of the
  bitwise operators are 32-bit integers.
\<close>

type_synonym byte = "8 word"
type_synonym code_unit = "16 word"
type_synonym jsstring = "code_unit list"
type_synonym int32 = "32 word"

definition js :: "string \<Rightarrow> jsstring" where
  "js s = map of_char s"

definition eq_sign :: code_unit where
  "eq_sign = of_char CHR ''=''"

definition line_break :: code_unit where
  "line_break = 10"

text \<open>\<open>bytes[i]\<close>: the element, or \<open>undefined\<close> (here \<open>None\<close>) out of range.\<close>

definition idx :: "byte list \<Rightarrow> nat \<Rightarrow> byte option" where
  "idx bytes i = (if i < length bytes then Some (bytes ! i) else None)"

text \<open>The conversion a bitwise operator applies to its operand: \<open>undefined\<close> becomes 0.\<close>

definition to_int32 :: "byte option \<Rightarrow> int32" where
  "to_int32 v = (case v of Some b \<Rightarrow> ucast b | None \<Rightarrow> 0)"

text \<open>
  The values that indexing a string and the operator \<open>+\<close> produce here: a string,
  \<open>undefined\<close> (an index out of range) and \<open>NaN\<close> (the sum of two \<open>undefined\<close>).
\<close>

datatype jsval = JString jsstring | JUndefined | JNaN

text \<open>\<open>table[n]\<close>: the one-character string at index \<open>n\<close>, or \<open>undefined\<close>.\<close>

definition string_at :: "jsstring \<Rightarrow> int32 \<Rightarrow> jsval" where
  "string_at s n = (if unat n < length s then JString [s ! unat n] else JUndefined)"

text \<open>The conversion to a string that appending to a string applies.\<close>

fun to_string :: "jsval \<Rightarrow> jsstring" where
  "to_string (JString s) = s"
| "to_string JUndefined = js ''undefined''"
| "to_string JNaN = js ''NaN''"

text \<open>
  \<open>a + b\<close>: concatenation when one operand is a string, and \<open>NaN\<close> otherwise.
\<close>

fun js_plus :: "jsval \<Rightarrow> jsval \<Rightarrow> jsval" where
  "js_plus (JString a) b = JString (a @ to_string b)"
| "js_plus a (JString b) = JString (to_string a @ b)"
| "js_plus a b = JNaN"

text \<open>\<open>table[n]\<close> as it is appended to a string by \<open>+=\<close>.\<close>

definition char_at :: "jsstring \<Rightarrow> int32 \<Rightarrow> jsstring" where
  "char_at s n = to_string (string_at s n)"

text \<open>\<open>s.replace(/=+$/, "")\<close>: all trailing pad characters removed.\<close>

definition strip_trailing_eq :: "jsstring \<Rightarrow> jsstring" where
  "strip_trailing_eq s = rev (dropWhile (\<lambda>c. c = eq_sign) (rev s))"

text \<open>\<open>s.slice(a, b)\<close> for indices \<open>0 \<le> a\<close>, \<open>0 \<le> b\<close>.\<close>

definition slice :: "jsstring \<Rightarrow> nat \<Rightarrow> nat \<Rightarrow> jsstring" where
  "slice s a b = take (b - a) (drop a s)"

text \<open>
  A JavaScript number: \<open>NaN\<close>, the two infinities, or a finite value (the two zeros are
  one value here, nothing in the program tells them apart).
\<close>

datatype jsnumber = NaN | PosInfinity | NegInfinity | Finite rat

text \<open>The truncation that \<open>slice\<close> applies to an argument that is not negative.\<close>

definition trunc :: "rat \<Rightarrow> nat" where
  "trunc r = nat \<lfloor>r\<rfloor>"

text \<open>The numbers that count as true in a condition.\<close>

definition truthy :: "jsnumber \<Rightarrow> bool" where
  "truthy w = (w \<noteq> NaN \<and> w \<noteq> Finite 0)"

section \<open>types.ts\<close>

datatype Base64Variant = Standard | Url
datatype PaddingOption = Preserve | Strip
datatype UnicodeNormalization = NFC | NFD | NFKC | NFKD
datatype OutputFormat = OutString | OutBytes

text \<open>The type \<open>false | number\<close> of the option \<open>wrap\<close>.\<close>

datatype WrapOption = WrapFalse | WrapWidth jsnumber

record Base64Options =
  variant :: "Base64Variant option"
  padding :: "PaddingOption option"
  wrap :: "WrapOption option"
  normalize :: "UnicodeNormalization option"

text \<open>
  The fields \<open>output\<close> and \<open>normalize\<close> of \<open>DecodeOptions\<close> are named
  \<open>doutput\<close> and \<open>dnormalize\<close> here. An absent field is \<open>None\<close>.
\<close>

record DecodeOptions =
  doutput :: "OutputFormat option"
  dnormalize :: "UnicodeNormalization option"
  loose :: "bool option"

section \<open>wrap.ts\<close>

text \<open>
  The loop of \<open>wrapAt\<close>, entered only with a finite positive width; \<open>i\<close> and \<open>out\<close> are
  the loop variables. The index \<open>i\<close> starts at 0 and is never negative, and \<open>slice\<close>
  truncates its two arguments. The sums \<open>i + width\<close> are exact here. In the code they are
  sums of doubles: they are exact there as well whenever the width is an integer, or another
  number whose multiples up to the length of the text are representable, such as 2.5. For
  other widths the code rounds each sum, which this loop does not follow.
\<close>

function wrapAt_loop :: "jsstring \<Rightarrow> rat \<Rightarrow> rat \<Rightarrow> jsstring \<Rightarrow> jsstring" where
  "wrapAt_loop input width i out =
     (if 0 < width \<and> i < of_nat (length input) then
        wrapAt_loop input width (i + width)
          ((out @ slice input (trunc i) (trunc (i + width))) @
           (if i + width < of_nat (length input) then [line_break] else []))
      else out)"
  by pat_completeness auto
termination
proof (relation "measure (\<lambda>(input, width, i, out). nat \<lceil>(of_nat (length input) - i) / width\<rceil>)")
  show "wf (measure (\<lambda>(input, width, i, out). nat \<lceil>(of_nat (length input) - i) / width\<rceil>))"
    by simp
next
  fix input :: jsstring and width i :: rat and out :: jsstring
  assume a: "0 < width \<and> i < of_nat (length input)"
  let ?x = "(of_nat (length input) - i) / width"
  have "(of_nat (length input) - (i + width)) / width = ?x - 1"
    using a by (simp add: field_simps)
  moreover have "0 < ?x" using a by simp
  then have "0 < \<lceil>?x\<rceil>" by simp
  ultimately have "nat \<lceil>(of_nat (length input) - (i + width)) / width\<rceil> < nat \<lceil>?x\<rceil>"
    by simp
  then show "((input, width, i + width,
               (out @ slice input (trunc i) (trunc (i + width))) @
               (if i + width < of_nat (length input) then [line_break] else [])),
              (input, width, i, out))
             \<in> measure (\<lambda>(input, width, i, out). nat \<lceil>(of_nat (length input) - i) / width\<rceil>)"
    by simp
qed

text \<open>
  \<open>wrapAt(input, width)\<close>. The width is \<open>None\<close> when the argument is absent
  (\<open>undefined\<close>); \<open>!width\<close> holds for it, for \<open>NaN\<close> and for zero. With the width
  \<open>Infinity\<close> the loop body runs once when the text is not empty: it appends
  \<open>input.slice(0, Infinity)\<close>, appends no line break, and leaves \<open>i\<close> at \<open>Infinity\<close>.
\<close>

definition wrapAt :: "jsstring \<Rightarrow> jsnumber option \<Rightarrow> jsstring" where
  "wrapAt input width =
     (case width of
        None \<Rightarrow> input
      | Some NaN \<Rightarrow> input
      | Some NegInfinity \<Rightarrow> input
      | Some PosInfinity \<Rightarrow>
          if 0 < length input then [] @ slice input 0 (length input) else []
      | Some (Finite w) \<Rightarrow> if w = 0 \<or> w \<le> 0 then input else wrapAt_loop input w 0 [])"

section \<open>encode.ts\<close>

definition B64_STD :: jsstring where
  "B64_STD = js ''ABCDEFGHIJKLMNOPQRSTUVWXYZabcdefghijklmnopqrstuvwxyz0123456789+/''"

definition B64_URL :: jsstring where
  "B64_URL = js ''ABCDEFGHIJKLMNOPQRSTUVWXYZabcdefghijklmnopqrstuvwxyz0123456789-_''"

text \<open>The loop of \<open>encodeChunk\<close>: \<open>>>\<close> is the sign-propagating shift.\<close>

function encodeChunk_loop ::
  "byte list \<Rightarrow> nat \<Rightarrow> nat \<Rightarrow> jsstring \<Rightarrow> jsstring \<Rightarrow> jsstring" where
  "encodeChunk_loop bytes i fin table out =
     (if i < fin then
        (let triple = push_bit 16 (to_int32 (idx bytes i))
                        OR push_bit 8 (to_int32 (idx bytes (i + 1)))
                        OR to_int32 (idx bytes (i + 2));
             out1 = out @ char_at table (signed_drop_bit 18 triple AND 63);
             out2 = out1 @ char_at table (signed_drop_bit 12 triple AND 63);
             out3 = out2 @ char_at table (signed_drop_bit 6 triple AND 63);
             out4 = out3 @ char_at table (triple AND 63)
         in encodeChunk_loop bytes (i + 3) fin table out4)
      else out)"
  by pat_completeness auto
termination
  by (relation "measure (\<lambda>(bytes, i, fin, table, out). fin - i)") auto

definition encodeChunk :: "byte list \<Rightarrow> nat \<Rightarrow> nat \<Rightarrow> jsstring \<Rightarrow> jsstring" where
  "encodeChunk bytes start fin table = encodeChunk_loop bytes start fin table []"

definition chunkSize :: nat where
  "chunkSize = 0x8000"

text \<open>
  The batching loop of \<open>encodeBase64FromBytes\<close> over the complete 3-byte groups; it
  returns the final \<open>i\<close> and \<open>output\<close>.
\<close>

function encode_batches ::
  "byte list \<Rightarrow> nat \<Rightarrow> jsstring \<Rightarrow> nat \<Rightarrow> jsstring \<Rightarrow> nat \<times> jsstring" where
  "encode_batches bytes len table i output =
     (if i + 3 \<le> len then
        (let fin = min (i + chunkSize - (chunkSize mod 3)) (len - (len mod 3))
         in encode_batches bytes len table fin (output @ encodeChunk bytes i fin table))
      else (i, output))"
  by pat_completeness auto
termination
proof (relation "measure (\<lambda>(bytes, len, table, i, output). len - i)")
  show "wf (measure (\<lambda>(bytes, len, table, i, output). len - i))"
    by simp
next
  fix bytes :: "byte list" and len :: nat and table :: jsstring and i :: nat
    and outp :: jsstring and fin :: nat
  assume a: "i + 3 \<le> len"
    and f: "fin = min (i + chunkSize - chunkSize mod 3) (len - len mod 3)"
  have "len mod 3 < 3" by simp
  with a have "i < len - len mod 3" by linarith
  moreover have "i < i + chunkSize - chunkSize mod 3"
    by (simp add: chunkSize_def)
  ultimately have "i < fin" using f by simp
  with a show "((bytes, len, table, fin, outp @ encodeChunk bytes i fin table),
                (bytes, len, table, i, outp))
               \<in> measure (\<lambda>(bytes, len, table, i, output). len - i)"
    by simp
qed

text \<open>The 1 or 2 remaining bytes, encoded with padding.\<close>

definition encode_tail :: "byte list \<Rightarrow> jsstring \<Rightarrow> nat \<Rightarrow> nat \<Rightarrow> jsstring" where
  "encode_tail bytes table i rem =
     (let a = idx bytes i;
          b = (if rem = 2 then to_int32 (idx bytes (i + 1)) else 0);
          triple = push_bit 16 (to_int32 a) OR push_bit 8 b;
          o1 = char_at table (signed_drop_bit 18 triple AND 63);
          o2 = o1 @ char_at table (signed_drop_bit 12 triple AND 63)
      in if rem = 2
         then (o2 @ char_at table (signed_drop_bit 6 triple AND 63)) @ [eq_sign]
         else o2 @ [eq_sign, eq_sign])"

text \<open>
  \<open>encodeBase64FromBytes(bytes, options)\<close>; the argument \<open>options\<close> may be absent. The
  line wrap applies when \<open>options.wrap\<close> is a number that counts as true.
\<close>

definition encodeBase64FromBytes :: "byte list \<Rightarrow> Base64Options option \<Rightarrow> jsstring" where
  "encodeBase64FromBytes bytes options =
     (let table = (if map_option variant options = Some (Some Url) then B64_URL else B64_STD);
          len = length bytes;
          (i, output0) = encode_batches bytes len table 0 [];
          rem = len - i;
          output1 = (if rem > 0 then output0 @ encode_tail bytes table i rem else output0);
          output2 = (if map_option padding options = Some (Some Strip)
                     then strip_trailing_eq output1 else output1)
      in case map_option wrap options of
           Some (Some (WrapWidth w)) \<Rightarrow> if truthy w then wrapAt output2 (Some w) else output2
         | _ \<Rightarrow> output2)"

section \<open>decode.ts\<close>

definition B64_STD_ALPH :: jsstring where
  "B64_STD_ALPH = js ''ABCDEFGHIJKLMNOPQRSTUVWXYZabcdefghijklmnopqrstuvwxyz0123456789+/''"

definition B64_URL_ALPH :: jsstring where
  "B64_URL_ALPH = js ''ABCDEFGHIJKLMNOPQRSTUVWXYZabcdefghijklmnopqrstuvwxyz0123456789-_''"

text \<open>
  \<open>createLookupTable\<close>: the object is a map from one-character keys to numbers, filled in
  index order.
\<close>

definition createLookupTable :: "jsstring \<Rightarrow> (code_unit \<rightharpoonup> nat)" where
  "createLookupTable alphabet =
     fold (\<lambda>i table. table(alphabet ! i \<mapsto> i)) [0..<length alphabet] Map.empty"

definition B64_STD_LOOKUP :: "code_unit \<rightharpoonup> nat" where
  "B64_STD_LOOKUP = createLookupTable B64_STD_ALPH"

definition B64_URL_LOOKUP :: "code_unit \<rightharpoonup> nat" where
  "B64_URL_LOOKUP = createLookupTable B64_URL_ALPH"

text \<open>\<open>bytes[i++] ?? 0\<close>, as the operand of a shift.\<close>

definition nullish0 :: "byte option \<Rightarrow> int32" where
  "nullish0 v = (case v of Some b \<Rightarrow> ucast b | None \<Rightarrow> 0)"

text \<open>The loop of \<open>encodeBytesToBase64Raw\<close>: \<open>>>>\<close> is the zero-filling shift.\<close>

function raw_loop :: "byte list \<Rightarrow> jsstring \<Rightarrow> nat \<Rightarrow> jsstring \<Rightarrow> jsstring" where
  "raw_loop bytes alphabet i out =
     (if i < length bytes then
        (let a = nullish0 (idx bytes i);
             b = nullish0 (idx bytes (i + 1));
             c = nullish0 (idx bytes (i + 2));
             triplet = push_bit 16 a OR push_bit 8 b OR c;
             s0 = drop_bit 18 triplet AND 0x3f;
             s1 = drop_bit 12 triplet AND 0x3f;
             s2 = drop_bit 6 triplet AND 0x3f;
             s3 = triplet AND 0x3f
         in raw_loop bytes alphabet (i + 3)
              (out @ to_string
                 (js_plus (js_plus (js_plus (string_at alphabet s0) (string_at alphabet s1))
                                   (string_at alphabet s2))
                          (string_at alphabet s3))))
      else out)"
  by pat_completeness auto
termination
  by (relation "measure (\<lambda>(bytes, alphabet, i, out). length bytes - i)") auto

definition encodeBytesToBase64Raw :: "byte list \<Rightarrow> jsstring \<Rightarrow> jsstring" where
  "encodeBytesToBase64Raw bytes alphabet =
     (let out = raw_loop bytes alphabet 0 [];
          md = length bytes mod 3
      in if md = 1 then slice out 0 (length out - 2) @ [eq_sign, eq_sign]
         else if md = 2 then slice out 0 (length out - 1) @ [eq_sign]
         else out)"

text \<open>
  The characters matched by \<open>\s\<close>: the white space and line terminator code units of
  ECMAScript.
\<close>

definition is_ws :: "code_unit \<Rightarrow> bool" where
  "is_ws c = (c \<in> set [0x09, 0x0A, 0x0B, 0x0C, 0x0D, 0x20, 0xA0, 0x1680, 0x2028, 0x2029,
                         0x202F, 0x205F, 0x3000, 0xFEFF]
              \<or> (0x2000 \<le> c \<and> c \<le> 0x200A))"

text \<open>\<open>input.replace(/\s+/g, "")\<close>\<close>

definition strip_ws :: "jsstring \<Rightarrow> jsstring" where
  "strip_ws input = filter (\<lambda>c. \<not> is_ws c) input"

text \<open>The regular expression tests \<open>/[-_]/\<close> and \<open>/[+/]/\<close>.\<close>

definition hasUrlChars :: "jsstring \<Rightarrow> bool" where
  "hasUrlChars cleaned = list_ex (\<lambda>c. c = of_char CHR ''-'' \<or> c = of_char CHR ''_'') cleaned"

definition hasStdChars :: "jsstring \<Rightarrow> bool" where
  "hasStdChars cleaned = list_ex (\<lambda>c. c = of_char CHR ''+'' \<or> c = of_char CHR ''/'') cleaned"

text \<open>The errors thrown by \<open>decodeBase64ToBytes\<close>, one constructor for each message.\<close>

datatype error =
    MixedAlphabets
  | InvalidLength
  | InvalidPadding
  | InvalidCharacter nat
  | NonCanonical

text \<open>\<open>s.indexOf("=")\<close>: \<open>None\<close> stands for \<open>-1\<close>.\<close>

definition indexOf_eq :: "jsstring \<Rightarrow> nat option" where
  "indexOf_eq s = (if eq_sign \<in> set s then Some (length (takeWhile (\<lambda>c. c \<noteq> eq_sign) s)) else None)"

definition endsWith :: "jsstring \<Rightarrow> jsstring \<Rightarrow> bool" where
  "endsWith s suf = (length suf \<le> length s \<and> drop (length s - length suf) s = suf)"

text \<open>
  The length and padding block: the padded text and the flag \<open>verifyCanonical\<close>, or the
  error thrown; \<open>md\<close> is the variable \<open>mod\<close> of the source.
\<close>

definition pad_input :: "bool \<Rightarrow> jsstring \<Rightarrow> error + (jsstring \<times> bool)" where
  "pad_input is_loose cleaned =
     (let padded = cleaned;
          md = length padded mod 4
      in if is_loose then
           (if md = 1 then Inl InvalidLength
            else if md \<noteq> 0 then Inr (padded @ replicate (4 - md) eq_sign, False)
            else Inr (padded, False))
         else
           (if md = 1 then Inl InvalidLength
            else if md = 2 \<or> md = 3 then Inr (padded @ replicate (4 - md) eq_sign, True)
            else (case indexOf_eq padded of
                    None \<Rightarrow> Inr (padded, False)
                  | Some eqIdx \<Rightarrow>
                      (let tail = drop eqIdx padded
                       in if \<not> (tail = [eq_sign] \<or> tail = [eq_sign, eq_sign])
                          then Inl InvalidPadding
                          else Inr (padded, False)))))"

text \<open>
  The decoded length. Here \<open>len\<close> is a multiple of 4, and at least 4 when the text ends
  with a pad character, so the quotient is exact and the difference is not negative
  (lemmas \<open>pad_input_multiple\<close> and \<open>outputLen_exact\<close> below).
\<close>

definition outputLen_of :: "jsstring \<Rightarrow> nat" where
  "outputLen_of padded =
     (length padded div 4) * 3
       - (if endsWith padded [eq_sign, eq_sign] then 2
          else if endsWith padded [eq_sign] then 1 else 0)"

text \<open>\<open>lookup[padded[i]]\<close>: \<open>None\<close> stands for \<open>undefined\<close>.\<close>

definition lookup_at :: "(code_unit \<rightharpoonup> nat) \<Rightarrow> jsstring \<Rightarrow> nat \<Rightarrow> nat option" where
  "lookup_at lookup padded i = (if i < length padded then lookup (padded ! i) else None)"

text \<open>\<open>padded[i] === "=" ? 0 : lookup[padded[i]]\<close>\<close>

definition lookup_or_pad :: "(code_unit \<rightharpoonup> nat) \<Rightarrow> jsstring \<Rightarrow> nat \<Rightarrow> nat option" where
  "lookup_or_pad lookup padded i =
     (if i < length padded \<and> padded ! i = eq_sign then Some 0 else lookup_at lookup padded i)"

text \<open>\<open>if (out < outputLen) output[out++] = v\<close>, on the pair of \<open>out\<close> and \<open>output\<close>.\<close>

definition put_byte :: "nat \<Rightarrow> nat \<times> byte list \<Rightarrow> int32 \<Rightarrow> nat \<times> byte list" where
  "put_byte outputLen st v =
     (case st of (out, output) \<Rightarrow>
        if out < outputLen then (out + 1, output[out := ucast v]) else (out, output))"

text \<open>The decoding loop, 4 characters to 3 bytes.\<close>

function decode_loop ::
  "(code_unit \<rightharpoonup> nat) \<Rightarrow> jsstring \<Rightarrow> nat \<Rightarrow> nat \<Rightarrow> nat \<Rightarrow> nat \<times> byte list
     \<Rightarrow> error + byte list" where
  "decode_loop lookup padded len outputLen i st =
     (if i < len then
        (let a = lookup_at lookup padded i;
             b = lookup_at lookup padded (i + 1);
             c = lookup_or_pad lookup padded (i + 2);
             d = lookup_or_pad lookup padded (i + 3)
         in if a = None \<or> b = None \<or> c = None \<or> d = None
            then Inl (InvalidCharacter i)
            else
              (let triple = push_bit 18 (of_nat (the a)) OR push_bit 12 (of_nat (the b))
                              OR push_bit 6 (of_nat (the c)) OR of_nat (the d);
                   st1 = put_byte outputLen st (signed_drop_bit 16 triple AND 0xff);
                   st2 = put_byte outputLen st1 (signed_drop_bit 8 triple AND 0xff);
                   st3 = put_byte outputLen st2 (triple AND 0xff)
               in decode_loop lookup padded len outputLen (i + 4) st3))
      else Inr (snd st))"
  by pat_completeness auto
termination
  by (relation "measure (\<lambda>(lookup, padded, len, outputLen, i, st). len - i)") auto

text \<open>
  The body of \<open>decodeBase64ToBytes\<close> after the alphabet has been selected: padding,
  decoding and canonical verification.
\<close>

definition decode_cleaned ::
  "(code_unit \<rightharpoonup> nat) \<Rightarrow> jsstring \<Rightarrow> bool \<Rightarrow> jsstring \<Rightarrow> error + byte list" where
  "decode_cleaned lookup alph is_loose cleaned =
     (case pad_input is_loose cleaned of
        Inl e \<Rightarrow> Inl e
      | Inr (padded, verifyCanonical) \<Rightarrow>
          (let len = length padded;
               outputLen = outputLen_of padded;
               output = replicate outputLen 0
           in case decode_loop lookup padded len outputLen 0 (0, output) of
                Inl e \<Rightarrow> Inl e
              | Inr output' \<Rightarrow>
                  if \<not> is_loose \<and> verifyCanonical then
                    (let reenc = strip_trailing_eq (encodeBytesToBase64Raw output' alph)
                     in if reenc \<noteq> cleaned then Inl NonCanonical else Inr output')
                  else Inr output'))"

text \<open>
  \<open>decodeBase64ToBytes(input, opts)\<close>: \<open>opts.loose\<close> counts as true only when it is
  present and true.
\<close>

definition decodeBase64ToBytes :: "jsstring \<Rightarrow> DecodeOptions \<Rightarrow> error + byte list" where
  "decodeBase64ToBytes input opts =
     (if input = [] then Inr []
      else
        (let cleaned = strip_ws input
         in if hasUrlChars cleaned \<and> hasStdChars cleaned then Inl MixedAlphabets
            else
              (let isUrl = hasUrlChars cleaned;
                   lookup = (if isUrl then B64_URL_LOOKUP else B64_STD_LOOKUP);
                   alph = (if isUrl then B64_URL_ALPH else B64_STD_ALPH)
               in decode_cleaned lookup alph (loose opts = Some True) cleaned)))"

section \<open>Auxiliary functions of the proofs\<close>

text \<open>
  The encoder options that the statements below distinguish: the alphabet selected, whether
  padding is kept or stripped, and whether the line wrap is off.
\<close>

definition table_of :: "Base64Options option \<Rightarrow> jsstring" where
  "table_of options = (if map_option variant options = Some (Some Url) then B64_URL else B64_STD)"

definition strips_padding :: "Base64Options option \<Rightarrow> bool" where
  "strips_padding options = (map_option padding options = Some (Some Strip))"

definition no_wrap :: "Base64Options option \<Rightarrow> bool" where
  "no_wrap options =
     (case map_option wrap options of Some (Some (WrapWidth w)) \<Rightarrow> \<not> truthy w | _ \<Rightarrow> True)"


text \<open>\<open>ws_inserted t t'\<close>: the text \<open>t'\<close> is \<open>t\<close> with white space inserted at any places.\<close>

inductive ws_inserted :: "jsstring \<Rightarrow> jsstring \<Rightarrow> bool" where
  ws_nil: "ws_inserted [] []"
| ws_keep: "ws_inserted t t' \<Longrightarrow> ws_inserted (c # t) (c # t')"
| ws_insert: "is_ws c \<Longrightarrow> ws_inserted t t' \<Longrightarrow> ws_inserted t (c # t')"

text \<open>The decode options with the field \<open>loose\<close> absent, and with it set to true.\<close>

definition strict_opts :: DecodeOptions where
  "strict_opts = \<lparr>doutput = None, dnormalize = None, loose = None\<rparr>"

definition loose_opts :: DecodeOptions where
  "loose_opts = \<lparr>doutput = None, dnormalize = None, loose = Some True\<rparr>"

text \<open>The alphabet that \<open>decodeBase64ToBytes\<close> selects for a cleaned text.\<close>

definition detected_alph :: "jsstring \<Rightarrow> jsstring" where
  "detected_alph cleaned = (if hasUrlChars cleaned then B64_URL_ALPH else B64_STD_ALPH)"

definition detected_lookup :: "jsstring \<Rightarrow> (code_unit \<rightharpoonup> nat)" where
  "detected_lookup cleaned = (if hasUrlChars cleaned then B64_URL_LOOKUP else B64_STD_LOOKUP)"

text \<open>The store of \<open>put_byte\<close>, on the byte stored.\<close>

definition store_byte :: "nat \<Rightarrow> nat \<times> byte list \<Rightarrow> byte \<Rightarrow> nat \<times> byte list" where
  "store_byte outputLen st b =
     (case st of (out, output) \<Rightarrow>
        if out < outputLen then (out + 1, output[out := b]) else (out, output))"

text \<open>Three bytes packed into 24 bits, and the character of the 6-bit field at bit \<open>k\<close>.\<close>

definition pack :: "byte \<Rightarrow> byte \<Rightarrow> byte \<Rightarrow> int32" where
  "pack a b c = push_bit 16 (ucast a) OR push_bit 8 (ucast b) OR ucast c"

definition sym :: "jsstring \<Rightarrow> nat \<Rightarrow> int32 \<Rightarrow> code_unit" where
  "sym T k t = T ! unat (drop_bit k t AND 63)"

text \<open>The padded and the unpadded encoding, by recursion on the byte list.\<close>

fun enc_list :: "jsstring \<Rightarrow> byte list \<Rightarrow> jsstring" where
  "enc_list T [] = []"
| "enc_list T [a] = [sym T 18 (pack a 0 0), sym T 12 (pack a 0 0), eq_sign, eq_sign]"
| "enc_list T [a, b] =
     [sym T 18 (pack a b 0), sym T 12 (pack a b 0), sym T 6 (pack a b 0), eq_sign]"
| "enc_list T (a # b # c # rest) =
     [sym T 18 (pack a b c), sym T 12 (pack a b c), sym T 6 (pack a b c), sym T 0 (pack a b c)]
       @ enc_list T rest"

fun enc_body :: "jsstring \<Rightarrow> byte list \<Rightarrow> jsstring" where
  "enc_body T [] = []"
| "enc_body T [a] = [sym T 18 (pack a 0 0), sym T 12 (pack a 0 0)]"
| "enc_body T [a, b] = [sym T 18 (pack a b 0), sym T 12 (pack a b 0), sym T 6 (pack a b 0)]"
| "enc_body T (a # b # c # rest) =
     [sym T 18 (pack a b c), sym T 12 (pack a b c), sym T 6 (pack a b c), sym T 0 (pack a b c)]
       @ enc_body T rest"

text \<open>The number of pad characters after \<open>n\<close> bytes.\<close>

definition npad :: "nat \<Rightarrow> nat" where
  "npad n = (if n mod 3 = 1 then 2 else if n mod 3 = 2 then 1 else 0)"

section \<open>Shifts and masks\<close>

lemma m63: "(63::int32) = mask 6" by (simp add: mask_eq_exp_minus_1)
lemma m255: "(255::int32) = mask 8" by (simp add: mask_eq_exp_minus_1)

lemma sdb_low:
  fixes t :: int32
  assumes "k + n < 32"
  shows "bit (signed_drop_bit k t) n = bit (drop_bit k t) n"
proof -
  have "\<not> (LENGTH(32) - k \<le> n \<and> n < LENGTH(32))" using assms by simp
  then have "bit (signed_drop_bit k t) n = bit t (k + n)"
    unfolding bit_signed_drop_bit_iff by (simp only: if_False)
  then show ?thesis by (simp add: bit_drop_bit_eq add.commute)
qed

lemma sdb63: "k \<le> 26 \<Longrightarrow> signed_drop_bit k (t::int32) AND 63 = drop_bit k t AND 63"
proof (rule bit_word_eqI)
  fix n assume k: "k \<le> 26" and "n < LENGTH(32)"
  show "bit (signed_drop_bit k t AND 63) n = bit (drop_bit k t AND 63) n"
  proof (cases "n < 6")
    case True
    with k have "k + n < 32" by simp
    then show ?thesis by (simp only: bit_and_iff sdb_low)
  next
    case False
    then show ?thesis by (simp add: bit_and_iff m63 bit_mask_iff)
  qed
qed

lemma sdb255: "k \<le> 24 \<Longrightarrow> signed_drop_bit k (t::int32) AND 255 = drop_bit k t AND 255"
proof (rule bit_word_eqI)
  fix n assume k: "k \<le> 24" and "n < LENGTH(32)"
  show "bit (signed_drop_bit k t AND 255) n = bit (drop_bit k t AND 255) n"
  proof (cases "n < 8")
    case True
    with k have "k + n < 32" by simp
    then show ?thesis by (simp only: bit_and_iff sdb_low)
  next
    case False
    then show ?thesis by (simp add: bit_and_iff m255 bit_mask_iff)
  qed
qed

lemma and63_less: "unat ((x::int32) AND 63) < 64"
proof -
  have "x AND 63 \<le> 63" by (rule word_and_le1)
  then have "unat (x AND 63) \<le> unat (63::int32)" by (simp add: word_le_nat_alt)
  then show ?thesis by simp
qed

lemma m3b: "(3::byte) = mask 2" by (simp add: mask_eq_exp_minus_1)
lemma m15b: "(15::byte) = mask 4" by (simp add: mask_eq_exp_minus_1)
lemma m63b: "(63::byte) = mask 6" by (simp add: mask_eq_exp_minus_1)

lemma byte_bit: "bit (x::byte) n \<Longrightarrow> n < 8"
  using bit_imp_le_length [of x n] by simp

lemma bit_pack:
  "bit (pack a b c) n \<longleftrightarrow>
     (16 \<le> n \<and> n < 24 \<and> bit a (n - 16)) \<or> (8 \<le> n \<and> n < 16 \<and> bit b (n - 8)) \<or> (n < 8 \<and> bit c n)"
  unfolding pack_def
  apply (simp add: bit_or_iff bit_push_bit_iff bit_ucast_iff cong: conj_cong)
  using byte_bit [of a "n - 16"] byte_bit [of b "n - 8"] byte_bit [of c n]
  apply auto
  done

lemma sx18: "drop_bit 18 (pack a b c) AND 63 = ucast (drop_bit 2 a)"
proof (rule bit_word_eqI)
  fix n assume "n < LENGTH(32)"
  show "bit (drop_bit 18 (pack a b c) AND 63) n = bit (ucast (drop_bit 2 a) :: int32) n"
    apply (simp add: bit_and_iff bit_drop_bit_eq bit_ucast_iff m63 bit_mask_iff bit_pack cong: conj_cong)
    using byte_bit [of a "n + 2"]
    apply auto
    done
qed

lemma sx12: "drop_bit 12 (pack a b c) AND 63 = ucast (push_bit 4 (a AND 3) OR drop_bit 4 b)"
proof (rule bit_word_eqI)
  fix n assume "n < LENGTH(32)"
  show "bit (drop_bit 12 (pack a b c) AND 63) n = bit (ucast (push_bit 4 (a AND 3) OR drop_bit 4 b) :: int32) n"
    apply (simp add: bit_and_iff bit_or_iff bit_drop_bit_eq bit_push_bit_iff bit_ucast_iff m63 m3b bit_mask_iff bit_pack cong: conj_cong)
    using byte_bit [of a "n - 4"] byte_bit [of b "4 + n"]
    apply auto
    done
qed

lemma sx6: "drop_bit 6 (pack a b c) AND 63 = ucast (push_bit 2 (b AND 15) OR drop_bit 6 c)"
proof (rule bit_word_eqI)
  fix n assume "n < LENGTH(32)"
  show "bit (drop_bit 6 (pack a b c) AND 63) n = bit (ucast (push_bit 2 (b AND 15) OR drop_bit 6 c) :: int32) n"
    apply (simp add: bit_and_iff bit_or_iff bit_drop_bit_eq bit_push_bit_iff bit_ucast_iff m63 m15b bit_mask_iff bit_pack cong: conj_cong)
    using byte_bit [of b "n - 2"] byte_bit [of c "6 + n"]
    apply auto
    done
qed

lemma sx0: "pack a b c AND 63 = ucast (c AND 63)"
proof (rule bit_word_eqI)
  fix n assume "n < LENGTH(32)"
  show "bit (pack a b c AND 63) n = bit (ucast (c AND 63) :: int32) n"
    apply (simp add: bit_and_iff bit_ucast_iff m63 m63b bit_mask_iff bit_pack cong: conj_cong)
    apply auto
    done
qed

lemma unat_up: "unat (ucast (x::byte) :: int32) = unat x"
proof -
  have "unat x < 2 ^ 8" using unsigned_less [of x] by simp
  then have "unat x < 2 ^ 32" by simp
  then show ?thesis by (simp add: unsigned_ucast_eq take_bit_nat_eq_self)
qed

lemma sym_18: "sym T 18 (pack a b c) = T ! unat (drop_bit 2 a)"
  by (simp add: sym_def sx18 unat_up)
lemma sym_12: "sym T 12 (pack a b c) = T ! unat (push_bit 4 (a AND 3) OR drop_bit 4 b)"
  by (simp add: sym_def sx12 unat_up)
lemma sym_6: "sym T 6 (pack a b c) = T ! unat (push_bit 2 (b AND 15) OR drop_bit 6 c)"
  by (simp add: sym_def sx6 unat_up)
lemma sym_0: "sym T 0 (pack a b c) = T ! unat (c AND 63)"
  by (simp add: sym_def sx0 unat_up)

section \<open>The encoder as a list function\<close>

lemma string_at_63:
  "length T = 64 \<Longrightarrow> string_at T (x AND 63) = JString [T ! unat (x AND 63)]"
  by (simp add: string_at_def and63_less)

lemma char_at_63: "length T = 64 \<Longrightarrow> char_at T (x AND 63) = [T ! unat (x AND 63)]"
  by (simp add: char_at_def string_at_63)

lemma nth3_drop:
  assumes "i + 3 \<le> length xs"
  shows "drop i xs = xs ! i # xs ! (i + 1) # xs ! (i + 2) # drop (i + 3) xs"
proof -
  have "drop i xs = xs ! i # drop (Suc i) xs"
    using assms by (simp add: Cons_nth_drop_Suc)
  also have "drop (Suc i) xs = xs ! Suc i # drop (Suc (Suc i)) xs"
    using assms by (simp add: Cons_nth_drop_Suc)
  also have "drop (Suc (Suc i)) xs = xs ! Suc (Suc i) # drop (Suc (Suc (Suc i))) xs"
    using assms by (simp add: Cons_nth_drop_Suc)
  finally show ?thesis by (simp add: numeral_3_eq_3)
qed

lemma enc_list_append:
  "length xs mod 3 = 0 \<Longrightarrow> enc_list T (xs @ ys) = enc_list T xs @ enc_list T ys"
proof (induction T xs rule: enc_list.induct)
  case (4 T a b c rest)
  then show ?case by simp
qed simp_all

declare encodeChunk_loop.simps [simp del]

lemma encodeChunk_loop_eq:
  "length T = 64 \<Longrightarrow> i + 3 * k \<le> length bytes \<Longrightarrow>
   encodeChunk_loop bytes i (i + 3 * k) T out = out @ enc_list T (take (3 * k) (drop i bytes))"
proof (induction k arbitrary: i out)
  case 0
  then show ?case by (simp add: encodeChunk_loop.simps [of bytes i i])
next
  case (Suc k)
  have len: "i + 3 \<le> length bytes" using Suc.prems by simp
  have ix: "idx bytes i = Some (bytes ! i)" "idx bytes (Suc i) = Some (bytes ! Suc i)"
           "idx bytes (Suc (Suc i)) = Some (bytes ! Suc (Suc i))"
    using len by (simp_all add: idx_def)
  have fin: "i + 3 * Suc k = (i + 3) + 3 * k" by simp
  have tk: "take (3 * Suc k) (drop i bytes) =
            bytes ! i # bytes ! (i + 1) # bytes ! (i + 2) # take (3 * k) (drop (i + 3) bytes)"
  proof -
    have "3 * Suc k = Suc (Suc (Suc (3 * k)))" by simp
    then show ?thesis by (simp only: nth3_drop [OF len] take_Suc_Cons)
  qed
  have IH: "encodeChunk_loop bytes (i + 3) (i + 3 + 3 * k) T out' =
            out' @ enc_list T (take (3 * k) (drop (i + 3) bytes))" for out'
    using Suc.IH [of "i + 3" out'] Suc.prems by simp
  have "encodeChunk_loop bytes i (i + 3 + 3 * k) T out =
        encodeChunk_loop bytes (i + 3) (i + 3 + 3 * k) T
          (out @ [sym T 18 (pack (bytes ! i) (bytes ! (i + 1)) (bytes ! (i + 2))),
                  sym T 12 (pack (bytes ! i) (bytes ! (i + 1)) (bytes ! (i + 2))),
                  sym T 6 (pack (bytes ! i) (bytes ! (i + 1)) (bytes ! (i + 2))),
                  sym T 0 (pack (bytes ! i) (bytes ! (i + 1)) (bytes ! (i + 2)))])"
    by (subst encodeChunk_loop.simps)
       (simp add: Let_def ix to_int32_def char_at_63 sdb63 sym_def Suc.prems(1) pack_def)
  then show ?case
    by (simp only: fin tk IH) simp
qed

declare encode_batches.simps [simp del]

lemma encodeChunk_eq:
  "length T = 64 \<Longrightarrow> i + 3 * k \<le> length bytes \<Longrightarrow>
   encodeChunk bytes i (i + 3 * k) T = enc_list T (take (3 * k) (drop i bytes))"
  by (simp add: encodeChunk_def encodeChunk_loop_eq)

lemma drop_last1: "Suc m = length xs \<Longrightarrow> drop m xs = [xs ! m]"
  using Cons_nth_drop_Suc [of m xs] by simp

lemma drop_last2: "Suc (Suc m) = length xs \<Longrightarrow> drop m xs = [xs ! m, xs ! Suc m]"
  using Cons_nth_drop_Suc [of m xs] Cons_nth_drop_Suc [of "Suc m" xs] by simp

lemma encode_batches_eq:
  assumes "length T = 64" and "i + 3 * j = length bytes - length bytes mod 3"
  shows "encode_batches bytes (length bytes) T i out =
         (length bytes - length bytes mod 3, out @ enc_list T (take (3 * j) (drop i bytes)))"
  using assms
proof (induction j arbitrary: i out rule: less_induct)
  case (less j)
  let ?n = "length bytes"
  let ?m = "?n - ?n mod 3"
  have mn: "?m \<le> ?n" by simp
  have nm: "?n < ?m + 3"
  proof -
    have "?n mod 3 < 3" by simp
    then show ?thesis by linarith
  qed
  show ?case
  proof (cases "i + 3 \<le> ?n")
    case False
    with less.prems nm have j0: "j = 0" by linarith
    have "encode_batches bytes ?n T i out = (i, out)"
      using False by (subst encode_batches.simps) simp
    with j0 less.prems(2) show ?thesis by simp
  next
    case True
    with less.prems nm have jpos: "0 < j" by (cases j) auto
    define k where "k = min 10922 j"
    have kpos: "0 < k" using jpos by (simp add: k_def)
    have kj: "k \<le> j" by (simp add: k_def)
    have fin: "min (i + chunkSize - chunkSize mod 3) ?m = i + 3 * k"
      using less.prems(2) by (simp add: chunkSize_def k_def min_def)
    have bound: "i + 3 * k \<le> ?n" using kj less.prems(2) mn by linarith
    have rest: "(i + 3 * k) + 3 * (j - k) = ?m" using kj less.prems(2) by (simp add: algebra_simps)
    have IH: "encode_batches bytes ?n T (i + 3 * k) out' =
              (?m, out' @ enc_list T (take (3 * (j - k)) (drop (i + 3 * k) bytes)))" for out'
      using less.IH [of "j - k" "i + 3 * k" out'] kpos jpos less.prems(1) rest by simp
    have split: "take (3 * j) (drop i bytes) =
                 take (3 * k) (drop i bytes) @ take (3 * (j - k)) (drop (i + 3 * k) bytes)"
    proof -
      have "3 * j = 3 * k + 3 * (j - k)" using kj by simp
      then have "take (3 * j) (drop i bytes) =
                 take (3 * k) (drop i bytes) @ take (3 * (j - k)) (drop (3 * k) (drop i bytes))"
        by (simp only: take_add)
      then show ?thesis by (simp add: add.commute)
    qed
    have lenk: "length (take (3 * k) (drop i bytes)) mod 3 = 0" using bound by simp
    have "encode_batches bytes ?n T i out =
          encode_batches bytes ?n T (i + 3 * k) (out @ encodeChunk bytes i (i + 3 * k) T)"
      using True fin by (subst encode_batches.simps) (simp add: Let_def)
    also have "\<dots> = (?m, (out @ enc_list T (take (3 * k) (drop i bytes)))
                           @ enc_list T (take (3 * (j - k)) (drop (i + 3 * k) bytes)))"
      by (simp only: IH encodeChunk_eq [OF less.prems(1) bound])
    also have "\<dots> = (?m, out @ enc_list T (take (3 * j) (drop i bytes)))"
      by (simp only: split enc_list_append [OF lenk] append_assoc)
    finally show ?thesis .
  qed
qed

lemma encode_tail_1:
  "length T = 64 \<Longrightarrow> i < length bytes \<Longrightarrow>
   encode_tail bytes T i (Suc 0) = enc_list T [bytes ! i]"
  by (simp add: encode_tail_def Let_def idx_def to_int32_def char_at_63 sdb63 sym_def pack_def)

lemma encode_tail_2:
  "length T = 64 \<Longrightarrow> Suc i < length bytes \<Longrightarrow>
   encode_tail bytes T i 2 = enc_list T [bytes ! i, bytes ! Suc i]"
  by (simp add: encode_tail_def Let_def idx_def to_int32_def char_at_63 sdb63 sym_def pack_def)

lemma len_STD: "length B64_STD = 64" by (simp add: B64_STD_def js_def)
lemma len_URL: "length B64_URL = 64" by (simp add: B64_URL_def js_def)
lemma len_table_of: "length (table_of options) = 64"
  by (simp add: table_of_def len_STD len_URL)

lemma npad_simps [simp]: "npad 0 = 0" "npad (Suc 0) = 2" "npad (Suc (Suc 0)) = 1"
  "npad (Suc (Suc (Suc n))) = npad n"
  by (simp_all add: npad_def mod_Suc)

lemma enc_list_body: "enc_list T bs = enc_body T bs @ replicate (npad (length bs)) eq_sign"
  by (induction T bs rule: enc_list.induct) (simp_all add: numeral_2_eq_2)

lemma length_enc_body: "length (enc_body T bs) = (4 * length bs + 2) div 3"
  by (induction T bs rule: enc_body.induct) simp_all

lemma length_enc_list: "length (enc_list T bs) = 4 * ((length bs + 2) div 3)"
proof (induction T bs rule: enc_list.induct)
  case (4 T a b c rest)
  have "(length rest + 3 + 2) div 3 = Suc ((length rest + 2) div 3)" by simp
  with 4 show ?case by (simp add: add.commute)
qed simp_all

lemma sym_in: "length T = 64 \<Longrightarrow> sym T k t \<in> set T"
  by (simp add: sym_def and63_less)

lemma enc_body_set: "length T = 64 \<Longrightarrow> set (enc_body T bs) \<subseteq> set T"
  by (induction T bs rule: enc_body.induct) (simp_all add: sym_in)

lemma strip_trailing_replicate:
  "eq_sign \<notin> set xs \<Longrightarrow> strip_trailing_eq (xs @ replicate k eq_sign) = xs"
proof -
  assume a: "eq_sign \<notin> set xs"
  have r: "dropWhile (\<lambda>c. c = eq_sign) (rev xs) = rev xs"
    using a by (cases "rev xs") auto
  have "dropWhile (\<lambda>c. c = eq_sign) (replicate k eq_sign @ ys) =
        dropWhile (\<lambda>c. c = eq_sign) ys" for ys
    by (induction k) simp_all
  with r have "dropWhile (\<lambda>c. c = eq_sign) (replicate k eq_sign @ rev xs) = rev xs"
    by simp
  then show ?thesis by (simp add: strip_trailing_eq_def)
qed

declare raw_loop.simps [simp del]

lemma raw_loop_eq:
  "length T = 64 \<Longrightarrow> i \<le> length bytes \<Longrightarrow>
   raw_loop bytes T i out =
     out @ enc_body T (drop i bytes) @ replicate (npad (length bytes - i)) (T ! 0)"
proof (induction "length bytes - i" arbitrary: i out rule: less_induct)
  case less
  let ?r = "length bytes - i"
  consider "?r = 0" | "?r = 1" | "?r = 2" | "3 \<le> ?r" by linarith
  then show ?case
  proof cases
    case 1
    then show ?thesis using less.prems by (subst raw_loop.simps) simp
  next
    case 2
    then have d: "drop i bytes = [bytes ! i]" using drop_last1 [of i bytes] by simp
    have ix: "idx bytes i = Some (bytes ! i)" "idx bytes (Suc i) = None" "idx bytes (Suc (Suc i)) = None"
      using 2 by (simp_all add: idx_def)
    have "\<not> i + 3 < length bytes" using 2 by linarith
    then have nxt: "raw_loop bytes T (i + 3) out' = out'" for out'
      by (subst raw_loop.simps) simp
    have s6: "sym T 6 (pack (bytes ! i) 0 0) = T ! 0" by (simp add: sym_6)
    have s0: "sym T 0 (pack (bytes ! i) 0 0) = T ! 0" by (simp add: sym_0)
    have "i < length bytes" using 2 by simp
    then show ?thesis
      apply (subst raw_loop.simps)
      apply (simp add: Let_def ix nullish0_def nxt d 2 string_at_63 less.prems(1) numeral_2_eq_2)
      using s6 s0 apply (simp add: sym_def pack_def)
      done
  next
    case 3
    then have d: "drop i bytes = [bytes ! i, bytes ! Suc i]" using drop_last2 [of i bytes] by simp
    have ix: "idx bytes i = Some (bytes ! i)" "idx bytes (Suc i) = Some (bytes ! Suc i)"
      "idx bytes (Suc (Suc i)) = None"
      using 3 by (simp_all add: idx_def)
    have "\<not> i + 3 < length bytes" using 3 by linarith
    then have nxt: "raw_loop bytes T (i + 3) out' = out'" for out'
      by (subst raw_loop.simps) simp
    have s0: "sym T 0 (pack (bytes ! i) (bytes ! Suc i) 0) = T ! 0" by (simp add: sym_0)
    have "i < length bytes" using 3 by simp
    then show ?thesis
      apply (subst raw_loop.simps)
      apply (simp add: Let_def ix nullish0_def nxt d 3 string_at_63 less.prems(1))
      using s0 apply (simp add: sym_def pack_def npad_def)
      done
  next
    case 4
    then have len: "i + 3 \<le> length bytes" by simp
    have ix: "idx bytes i = Some (bytes ! i)" "idx bytes (Suc i) = Some (bytes ! Suc i)"
      "idx bytes (Suc (Suc i)) = Some (bytes ! Suc (Suc i))"
      using len by (simp_all add: idx_def)
    have IH: "raw_loop bytes T (i + 3) out' =
              out' @ enc_body T (drop (i + 3) bytes) @ replicate (npad (length bytes - (i + 3))) (T ! 0)" for out'
      using less.hyps [of "i + 3" out'] less.prems len by simp
    have np: "npad (length bytes - i) = npad (length bytes - (i + 3))"
    proof -
      have "length bytes - i = Suc (Suc (Suc (length bytes - (i + 3))))" using len by simp
      then show ?thesis by (simp only: npad_simps)
    qed
    have "i < length bytes" using len by simp
    then show ?thesis
      apply (subst raw_loop.simps)
      apply (simp add: Let_def ix nullish0_def IH nth3_drop [OF len] np string_at_63 less.prems(1))
      apply (simp add: sym_def pack_def)
      done
  qed
qed

lemma raw_eq_enc_list:
  assumes "length T = 64"
  shows "encodeBytesToBase64Raw bytes T = enc_list T bytes"
proof -
  have r: "raw_loop bytes T 0 [] = enc_body T bytes @ replicate (npad (length bytes)) (T ! 0)"
    using raw_loop_eq [OF assms, of 0 bytes "[]"] by simp
  show ?thesis
    by (simp add: encodeBytesToBase64Raw_def Let_def r slice_def enc_list_body npad_def numeral_2_eq_2)
qed

lemma encode_batches_0:
  assumes T: "length T = 64"
  shows "encode_batches bytes (length bytes) T 0 [] =
         (length bytes - length bytes mod 3, enc_list T (take (length bytes - length bytes mod 3) bytes))"
proof -
  have "3 * (length bytes div 3) = length bytes - length bytes mod 3"
    by (simp add: minus_mod_eq_mult_div)
  then show ?thesis
    using encode_batches_eq [OF T, of 0 "length bytes div 3" bytes "[]"] by simp
qed

lemma encode_rest:
  assumes T: "length T = 64"
  shows "(if 0 < length bytes - (length bytes - length bytes mod 3)
          then enc_list T (take (length bytes - length bytes mod 3) bytes)
                 @ encode_tail bytes T (length bytes - length bytes mod 3)
                     (length bytes - (length bytes - length bytes mod 3))
          else enc_list T (take (length bytes - length bytes mod 3) bytes)) = enc_list T bytes"
proof -
  let ?n = "length bytes"
  let ?m = "?n - ?n mod 3"
  have rem: "?n - ?m = ?n mod 3" by simp
  have "length (take ?m bytes) = 3 * (?n div 3)" by (simp add: minus_mod_eq_mult_div)
  then have lt: "length (take ?m bytes) mod 3 = 0" by simp
  have whole: "enc_list T bytes = enc_list T (take ?m bytes) @ enc_list T (drop ?m bytes)"
    using enc_list_append [OF lt, of T "drop ?m bytes"] by simp
  consider "?n mod 3 = 0" | "?n mod 3 = 1" | "?n mod 3 = 2" by linarith
  then show ?thesis
  proof cases
    case 1
    then show ?thesis unfolding rem by simp
  next
    case 2
    have "Suc ?m = ?n" using 2 mod_less_eq_dividend [of ?n 3] by linarith
    then have d: "drop ?m bytes = [bytes ! ?m]" by (rule drop_last1)
    have "?m < ?n" using 2 by simp
    then have "encode_tail bytes T ?m (Suc 0) = enc_list T (drop ?m bytes)"
      unfolding d by (rule encode_tail_1 [OF T])
    then show ?thesis unfolding rem using 2 whole by simp
  next
    case 3
    have "Suc (Suc ?m) = ?n" using 3 mod_less_eq_dividend [of ?n 3] by linarith
    then have d: "drop ?m bytes = [bytes ! ?m, bytes ! Suc ?m]" by (rule drop_last2)
    have "Suc ?m < ?n" using 3 by simp
    then have "encode_tail bytes T ?m 2 = enc_list T (drop ?m bytes)"
      unfolding d by (rule encode_tail_2 [OF T])
    then show ?thesis unfolding rem using 3 whole by simp
  qed
qed

lemma encode_unstripped:
  assumes "\<not> strips_padding options" and "no_wrap options"
  shows "encodeBase64FromBytes bytes options = enc_list (table_of options) bytes"
proof -
  have w: "(case map_option wrap options of
              Some (Some (WrapWidth w)) \<Rightarrow> if truthy w then wrapAt x (Some w) else x
            | _ \<Rightarrow> x) = x" for x
    using assms(2) by (auto simp add: no_wrap_def split: option.splits WrapOption.splits)
  show ?thesis
    unfolding encodeBase64FromBytes_def Let_def table_of_def [symmetric] w
      strips_padding_def [symmetric] encode_batches_0 [OF len_table_of] prod.case
      encode_rest [OF len_table_of]
    using assms(1) by simp
qed

lemma encode_stripped:
  assumes "strips_padding options" and "no_wrap options"
  shows "encodeBase64FromBytes bytes options = strip_trailing_eq (enc_list (table_of options) bytes)"
proof -
  have w: "(case map_option wrap options of
              Some (Some (WrapWidth w)) \<Rightarrow> if truthy w then wrapAt x (Some w) else x
            | _ \<Rightarrow> x) = x" for x
    using assms(2) by (auto simp add: no_wrap_def split: option.splits WrapOption.splits)
  show ?thesis
    unfolding encodeBase64FromBytes_def Let_def table_of_def [symmetric] w
      strips_padding_def [symmetric] encode_batches_0 [OF len_table_of] prod.case
      encode_rest [OF len_table_of]
    using assms(1) by simp
qed

lemma eq_notin_STD: "eq_sign \<notin> set B64_STD" by (simp add: B64_STD_def js_def eq_sign_def)
lemma eq_notin_URL: "eq_sign \<notin> set B64_URL" by (simp add: B64_URL_def js_def eq_sign_def)
lemma eq_notin_table_of: "eq_sign \<notin> set (table_of options)"
  by (simp add: table_of_def eq_notin_STD eq_notin_URL)

lemma eq_notin_enc_body: "eq_sign \<notin> set (enc_body (table_of options) bs)"
  using enc_body_set [OF len_table_of, of options bs] eq_notin_table_of [of options] by blast

lemma strip_enc_list: "strip_trailing_eq (enc_list (table_of options) bs) = enc_body (table_of options) bs"
  by (simp add: enc_list_body strip_trailing_replicate eq_notin_enc_body)

section \<open>The line wrap\<close>

declare wrapAt_loop.simps [simp del]






lemma trunc_of_nat: "trunc (of_nat n) = n"
  by (simp add: trunc_def)




section \<open>The decoder: stages and lookup tables\<close>

declare decode_loop.simps [simp del]

lemma decode_cleaned_nil: "decode_cleaned lk alph l [] = Inr []"
  by (simp add: decode_cleaned_def pad_input_def indexOf_eq_def outputLen_of_def endsWith_def
      decode_loop.simps [of lk "[]"])

lemma strip_ws_idem: "strip_ws (strip_ws t) = strip_ws t"
  by (simp add: strip_ws_def)

lemma not_has_nil: "\<not> hasUrlChars []" "\<not> hasStdChars []"
  by (simp_all add: hasUrlChars_def hasStdChars_def)

lemma decode_eq:
  "decodeBase64ToBytes input opts =
     (if hasUrlChars (strip_ws input) \<and> hasStdChars (strip_ws input) then Inl MixedAlphabets
      else decode_cleaned (detected_lookup (strip_ws input)) (detected_alph (strip_ws input))
             (loose opts = Some True) (strip_ws input))"
proof (cases "input = []")
  case True
  then show ?thesis
    by (simp add: decodeBase64ToBytes_def strip_ws_def not_has_nil decode_cleaned_nil)
next
  case False
  then show ?thesis
    by (simp add: decodeBase64ToBytes_def Let_def detected_lookup_def detected_alph_def)
qed

lemma pad_input_length1:
  "length cleaned mod 4 = 1 \<Longrightarrow> pad_input l cleaned = Inl InvalidLength"
  by (simp add: pad_input_def)

lemma pad_input_23:
  "length cleaned mod 4 = 2 \<or> length cleaned mod 4 = 3 \<Longrightarrow>
   pad_input l cleaned = Inr (cleaned @ replicate (4 - length cleaned mod 4) eq_sign, \<not> l)"
  by (auto simp add: pad_input_def Let_def)

text \<open>The decoded length is computed on a multiple of 4 and is not negative.\<close>

lemma pad_input_multiple:
  assumes "pad_input l cleaned = Inr (padded, v)"
  shows "length padded mod 4 = 0"
proof -
  let ?m = "length cleaned mod 4"
  have "?m < 4" by simp
  then consider "?m = 0" | "?m = 1" | "?m = 2" | "?m = 3" by linarith
  then show ?thesis
  proof cases
    case 1
    with assms have "padded = cleaned"
      by (auto simp add: pad_input_def Let_def split: if_splits option.splits)
    with 1 show ?thesis by simp
  next
    case 2
    with assms show ?thesis by (simp add: pad_input_def Let_def split: if_splits)
  next
    case 3
    with assms have "padded = cleaned @ replicate 2 eq_sign"
      by (auto simp add: pad_input_def Let_def split: if_splits)
    then have "length padded = length cleaned + 2" by simp
    with 3 show ?thesis by presburger
  next
    case 4
    with assms have "padded = cleaned @ replicate 1 eq_sign"
      by (auto simp add: pad_input_def Let_def split: if_splits)
    then have "length padded = length cleaned + 1" by simp
    with 4 show ?thesis by presburger
  qed
qed

lemma outputLen_exact:
  assumes "length padded mod 4 = 0"
  shows "int (outputLen_of padded) =
         int (length padded div 4) * 3
           - (if endsWith padded [eq_sign, eq_sign] then 2
              else if endsWith padded [eq_sign] then 1 else 0)"
proof -
  have e: "endsWith padded [eq_sign] \<or> endsWith padded [eq_sign, eq_sign] \<Longrightarrow> 1 \<le> length padded"
    by (auto simp add: endsWith_def)
  have "3 \<le> length padded div 4 * 3" if "1 \<le> length padded"
    using that assms by presburger
  with e have "endsWith padded [eq_sign] \<or> endsWith padded [eq_sign, eq_sign]
               \<Longrightarrow> 3 \<le> length padded div 4 * 3" by blast
  then show ?thesis by (auto simp add: outputLen_of_def)
qed

lemma ws_inserted_strip: "ws_inserted t t' \<Longrightarrow> strip_ws t' = strip_ws t"
  by (induction rule: ws_inserted.induct) (simp_all add: strip_ws_def)

lemma lookup_fold_nth:
  "distinct alph \<Longrightarrow> n \<le> length alph \<Longrightarrow> k < n \<Longrightarrow>
   fold (\<lambda>i table. table(alph ! i \<mapsto> i)) [0..<n] m (alph ! k) = Some k"
proof (induction n)
  case 0
  then show ?case by simp
next
  case (Suc n)
  show ?case
  proof (cases "k = n")
    case True
    then show ?thesis by simp
  next
    case False
    with Suc.prems have k: "k < n" and n: "n < length alph" by simp_all
    then have "alph ! k \<noteq> alph ! n"
      using Suc.prems(1) False by (simp add: nth_eq_iff_index_eq)
    then show ?thesis using Suc.IH Suc.prems k by simp
  qed
qed

lemma lookup_fold_notin:
  "n \<le> length alph \<Longrightarrow> c \<notin> set alph \<Longrightarrow>
   fold (\<lambda>i table. table(alph ! i \<mapsto> i)) [0..<n] m c = m c"
proof (induction n)
  case 0
  then show ?case by simp
next
  case (Suc n)
  then have "alph ! n \<in> set alph" by simp
  with Suc.prems have "c \<noteq> alph ! n" by blast
  then show ?case using Suc by simp
qed

lemma createLookupTable_nth:
  "distinct alph \<Longrightarrow> k < length alph \<Longrightarrow> createLookupTable alph (alph ! k) = Some k"
  by (simp add: createLookupTable_def lookup_fold_nth)

lemma createLookupTable_notin:
  "c \<notin> set alph \<Longrightarrow> createLookupTable alph c = None"
  by (simp add: createLookupTable_def lookup_fold_notin)

lemma distinct_STD: "distinct B64_STD_ALPH"
  by (simp add: B64_STD_ALPH_def js_def)

lemma distinct_URL: "distinct B64_URL_ALPH"
  by (simp add: B64_URL_ALPH_def js_def)

lemma len_STD_ALPH: "length B64_STD_ALPH = 64" by (simp add: B64_STD_ALPH_def js_def)
lemma len_URL_ALPH: "length B64_URL_ALPH = 64" by (simp add: B64_URL_ALPH_def js_def)

section \<open>The position reported for an invalid character\<close>

lemma decode_loop_position:
  "decode_loop lk padded len L i st = Inl e \<Longrightarrow> \<exists>k. e = InvalidCharacter (i + 4 * k)"
proof (induction "len - i" arbitrary: i st rule: less_induct)
  case less
  show ?case
  proof (cases "i < len")
    case False
    then have "decode_loop lk padded len L i st = Inr (snd st)"
      by (subst decode_loop.simps) simp
    with less.prems show ?thesis by simp
  next
    case True
    let ?bad = "lookup_at lk padded i = None \<or> lookup_at lk padded (i + 1) = None
                \<or> lookup_or_pad lk padded (i + 2) = None \<or> lookup_or_pad lk padded (i + 3) = None"
    show ?thesis
    proof (cases ?bad)
      case bad: True
      have "decode_loop lk padded len L i st = Inl (InvalidCharacter i)"
        using True bad by (subst decode_loop.simps) (simp add: Let_def)
      with less.prems have "e = InvalidCharacter (i + 4 * 0)" by simp
      then show ?thesis by blast
    next
      case good: False
      have "\<exists>st'. decode_loop lk padded len L i st = decode_loop lk padded len L (i + 4) st'"
        by (subst decode_loop.simps, simp only: True good if_True if_False Let_def)
           (rule exI, rule refl)
      then obtain st' where
        "decode_loop lk padded len L i st = decode_loop lk padded len L (i + 4) st'" by blast
      with less.prems have "decode_loop lk padded len L (i + 4) st' = Inl e" by simp
      moreover have "len - (i + 4) < len - i" using True by simp
      ultimately obtain k where "e = InvalidCharacter (i + 4 + 4 * k)"
        using less.hyps by blast
      then have "e = InvalidCharacter (i + 4 * Suc k)" by simp
      then show ?thesis by blast
    qed
  qed
qed

lemma pad_input_error:
  "pad_input l cleaned = Inl e \<Longrightarrow> e = InvalidLength \<or> e = InvalidPadding"
  by (auto simp add: pad_input_def Let_def split: if_splits option.splits)

lemma invalid_character_group_start:
  assumes "decodeBase64ToBytes input opts = Inl (InvalidCharacter p)"
  shows "p mod 4 = 0"
proof -
  let ?c = "strip_ws input"
  from assms have d: "decode_cleaned (detected_lookup ?c) (detected_alph ?c) (loose opts = Some True) ?c
                      = Inl (InvalidCharacter p)"
    by (simp add: decode_eq split: if_splits)
  then obtain padded where "decode_loop (detected_lookup ?c) padded (length padded)
       (outputLen_of padded) 0 (0, replicate (outputLen_of padded) 0) = Inl (InvalidCharacter p)"
    by (auto simp add: decode_cleaned_def Let_def split: sum.splits prod.splits if_splits
        dest: pad_input_error)
  then obtain k where "InvalidCharacter p = InvalidCharacter (0 + 4 * k)"
    using decode_loop_position by blast
  then show ?thesis by simp
qed

section \<open>Decoding an encoded text\<close>

lemma pack_bound: "bit (pack a b c) n \<Longrightarrow> n < 24"
  by (auto simp add: bit_pack dest: byte_bit)

lemma recombine:
  "push_bit 18 (drop_bit 18 (pack a b c) AND 63) OR push_bit 12 (drop_bit 12 (pack a b c) AND 63)
     OR push_bit 6 (drop_bit 6 (pack a b c) AND 63) OR (pack a b c AND 63) = pack a b c"
proof (rule bit_word_eqI)
  fix n assume "n < LENGTH(32)"
  have *: "bit (pack a b c) n \<Longrightarrow> n < 24" by (rule pack_bound)
  show "bit (push_bit 18 (drop_bit 18 (pack a b c) AND 63)
             OR push_bit 12 (drop_bit 12 (pack a b c) AND 63)
             OR push_bit 6 (drop_bit 6 (pack a b c) AND 63) OR (pack a b c AND 63)) n
        = bit (pack a b c) n"
    apply (simp add: bit_or_iff bit_and_iff bit_push_bit_iff bit_drop_bit_eq m63 bit_mask_iff
        cong: conj_cong)
    using * apply auto
    done
qed

lemma byte0: "ucast (drop_bit 16 (pack a b c) AND 255) = a"
proof (rule bit_word_eqI)
  fix n assume "n < LENGTH(8)"
  then show "bit (ucast (drop_bit 16 (pack a b c) AND 255) :: byte) n = bit a n"
    by (simp add: bit_ucast_iff bit_and_iff bit_drop_bit_eq m255 bit_mask_iff bit_pack
        cong: conj_cong)
qed

lemma byte1: "ucast (drop_bit 8 (pack a b c) AND 255) = b"
proof (rule bit_word_eqI)
  fix n assume "n < LENGTH(8)"
  then show "bit (ucast (drop_bit 8 (pack a b c) AND 255) :: byte) n = bit b n"
    by (simp add: bit_ucast_iff bit_and_iff bit_drop_bit_eq m255 bit_mask_iff bit_pack
        cong: conj_cong)
qed

lemma byte2: "ucast (pack a b c AND 255) = c"
proof (rule bit_word_eqI)
  fix n assume "n < LENGTH(8)"
  then show "bit (ucast (pack a b c AND 255) :: byte) n = bit c n"
    by (simp add: bit_ucast_iff bit_and_iff m255 bit_mask_iff bit_pack cong: conj_cong)
qed

lemma put_byte_store: "put_byte L st v = store_byte L st (ucast v)"
  by (simp add: put_byte_def store_byte_def)

lemma lk_sym:
  assumes "length T = 64" and "\<forall>k<64. lk (T ! k) = Some k"
  shows "lk (sym T k t) = Some (unat (drop_bit k t AND 63))"
  using assms(2) and63_less [of "drop_bit k t"] by (simp add: sym_def)

lemma sym_neq: "length T = 64 \<Longrightarrow> eq_sign \<notin> set T \<Longrightarrow> sym T k t \<noteq> eq_sign"
  using sym_in [of T k t] by auto

lemma decode_loop_done: "decode_loop lk padded len L len st = Inr (snd st)"
  by (subst decode_loop.simps) simp

lemma decode_group:
  assumes p: "padded = pre @ [x0, x1, x2, x3] @ rest"
    and l0: "lk x0 = Some (unat s0)" and l1: "lk x1 = Some (unat s1)"
    and l2: "(if x2 = eq_sign then Some 0 else lk x2) = Some (unat s2)"
    and l3: "(if x3 = eq_sign then Some 0 else lk x3) = Some (unat s3)"
    and t: "push_bit 18 s0 OR push_bit 12 s1 OR push_bit 6 s2 OR s3 = pack a b c"
  shows "decode_loop lk padded (length padded) L (length pre) st =
         decode_loop lk padded (length padded) L (length pre + 4)
           (store_byte L (store_byte L (store_byte L st a) b) c)"
proof -
  have i: "length pre < length padded" by (simp add: p)
  have n0: "padded ! length pre = x0" by (simp add: p)
  have n1: "padded ! (length pre + 1) = x1" by (simp add: p nth_append)
  have n2: "padded ! (length pre + 2) = x2" by (simp add: p nth_append)
  have n3: "padded ! (length pre + 3) = x3" by (simp add: p nth_append)
  have b: "length pre + 1 < length padded" "length pre + 2 < length padded"
    "length pre + 3 < length padded" by (simp_all add: p)
  have a0: "lookup_at lk padded (length pre) = Some (unat s0)"
    by (simp add: lookup_at_def i n0 l0)
  have a1: "lookup_at lk padded (length pre + 1) = Some (unat s1)"
    by (simp only: lookup_at_def b n1 l1 if_True)
  have a2: "lookup_or_pad lk padded (length pre + 2) = Some (unat s2)"
    using l2 by (simp only: lookup_or_pad_def lookup_at_def b n2 if_True simp_thms split: if_splits)
  have a3: "lookup_or_pad lk padded (length pre + 3) = Some (unat s3)"
    using l3 by (simp only: lookup_or_pad_def lookup_at_def b n3 if_True simp_thms split: if_splits)
  have tr: "push_bit 18 (word_of_nat (unat s0)) OR push_bit 12 (word_of_nat (unat s1))
              OR push_bit 6 (word_of_nat (unat s2)) OR word_of_nat (unat s3) = pack a b c"
    using t by simp
  have by0: "ucast (signed_drop_bit 16 (pack a b c) AND 255) = a" by (simp add: sdb255 byte0)
  have by1: "ucast (signed_drop_bit 8 (pack a b c) AND 255) = b" by (simp add: sdb255 byte1)
  show ?thesis
    apply (subst decode_loop.simps)
    apply (simp only: i if_True a0 a1 a2 a3 Let_def option.sel option.distinct simp_thms if_False
        tr put_byte_store by0 by1 byte2)
    done
qed

lemma decode_loop_enc:
  assumes "length T = 64" and "eq_sign \<notin> set T" and "\<forall>k<64. lk (T ! k) = Some k"
  shows "decode_loop lk (pre @ enc_list T bs) (length (pre @ enc_list T bs)) L (length pre) st =
         Inr (snd (fold (\<lambda>b st. store_byte L st b) (bs @ replicate (npad (length bs)) 0) st))"
  using assms
proof (induction T bs arbitrary: pre st rule: enc_list.induct)
  case (1 T)
  show ?case by (simp add: decode_loop_done)
next
  case (2 T a)
  let ?t = "pack a 0 0"
  let ?p = "pre @ enc_list T [a]"
  have p: "?p = pre @ [sym T 18 ?t, sym T 12 ?t, eq_sign, eq_sign] @ []" by simp
  have z6: "drop_bit 6 ?t AND 63 = 0" by (simp add: sx6)
  have z0: "?t AND 63 = 0" by (simp add: sx0)
  have t: "push_bit 18 (drop_bit 18 ?t AND 63) OR push_bit 12 (drop_bit 12 ?t AND 63)
             OR push_bit 6 0 OR 0 = ?t"
    using recombine [of a 0 0] by (simp only: z6 z0)
  have "decode_loop lk ?p (length ?p) L (length pre) st =
        decode_loop lk ?p (length ?p) L (length pre + 4)
          (store_byte L (store_byte L (store_byte L st a) 0) 0)"
    by (rule decode_group [OF p lk_sym [OF "2.prems"(1,3)] lk_sym [OF "2.prems"(1,3)] _ _ t])
       simp_all
  moreover have "length pre + 4 = length ?p" by simp
  ultimately show ?case
    by (simp only: decode_loop_done) (simp add: numeral_2_eq_2)
next
  case (3 T a b)
  let ?t = "pack a b 0"
  let ?p = "pre @ enc_list T [a, b]"
  have p: "?p = pre @ [sym T 18 ?t, sym T 12 ?t, sym T 6 ?t, eq_sign] @ []" by simp
  have z0: "?t AND 63 = 0" by (simp add: sx0)
  have t: "push_bit 18 (drop_bit 18 ?t AND 63) OR push_bit 12 (drop_bit 12 ?t AND 63)
             OR push_bit 6 (drop_bit 6 ?t AND 63) OR 0 = ?t"
    using recombine [of a b 0] by (simp only: z0)
  have n: "(if sym T 6 ?t = eq_sign then Some 0 else lk (sym T 6 ?t))
           = Some (unat (drop_bit 6 ?t AND 63))"
    by (simp add: sym_neq [OF "3.prems"(1,2)] lk_sym [OF "3.prems"(1,3)])
  have "decode_loop lk ?p (length ?p) L (length pre) st =
        decode_loop lk ?p (length ?p) L (length pre + 4)
          (store_byte L (store_byte L (store_byte L st a) b) 0)"
    by (rule decode_group [OF p lk_sym [OF "3.prems"(1,3)] lk_sym [OF "3.prems"(1,3)] n _ t])
       simp
  moreover have "length pre + 4 = length ?p" by simp
  ultimately show ?case
    by (simp only: decode_loop_done) simp
next
  case (4 T a b c rest)
  let ?t = "pack a b c"
  let ?g = "[sym T 18 ?t, sym T 12 ?t, sym T 6 ?t, sym T 0 ?t]"
  let ?p = "pre @ enc_list T (a # b # c # rest)"
  have p: "?p = pre @ ?g @ enc_list T rest" by simp
  have p': "?p = (pre @ ?g) @ enc_list T rest" by simp
  have t: "push_bit 18 (drop_bit 18 ?t AND 63) OR push_bit 12 (drop_bit 12 ?t AND 63)
             OR push_bit 6 (drop_bit 6 ?t AND 63) OR (drop_bit 0 ?t AND 63) = ?t"
    using recombine [of a b c] by simp
  have n6: "(if sym T 6 ?t = eq_sign then Some 0 else lk (sym T 6 ?t))
           = Some (unat (drop_bit 6 ?t AND 63))"
    by (simp add: sym_neq [OF "4.prems"(1,2)] lk_sym [OF "4.prems"(1,3)])
  have n0: "(if sym T 0 ?t = eq_sign then Some 0 else lk (sym T 0 ?t))
           = Some (unat (drop_bit 0 ?t AND 63))"
    by (simp only: sym_neq [OF "4.prems"(1,2)] lk_sym [OF "4.prems"(1,3)] if_False)
  have "decode_loop lk ?p (length ?p) L (length pre) st =
        decode_loop lk ?p (length ?p) L (length pre + 4)
          (store_byte L (store_byte L (store_byte L st a) b) c)"
    by (rule decode_group [OF p lk_sym [OF "4.prems"(1,3)] lk_sym [OF "4.prems"(1,3)] n6 n0 t])
  also have "length pre + 4 = length (pre @ ?g)" by simp
  also have "decode_loop lk ?p (length ?p) L (length (pre @ ?g))
          (store_byte L (store_byte L (store_byte L st a) b) c) =
        Inr (snd (fold (\<lambda>b st. store_byte L st b) (rest @ replicate (npad (length rest)) 0)
          (store_byte L (store_byte L (store_byte L st a) b) c)))"
    unfolding p' by (rule "4.IH" [OF "4.prems"])
  finally show ?case by simp
qed

lemma store_fold_general:
  "fold (\<lambda>b st. store_byte L st b) bs
     (min L (length acc), take L acc @ replicate (L - length acc) 0)
   = (min L (length (acc @ bs)), take L (acc @ bs) @ replicate (L - length (acc @ bs)) 0)"
proof (induction bs arbitrary: acc)
  case Nil
  show ?case by simp
next
  case (Cons b bs)
  have "store_byte L (min L (length acc), take L acc @ replicate (L - length acc) 0) b
        = (min L (length (acc @ [b])),
           take L (acc @ [b]) @ replicate (L - length (acc @ [b])) 0)"
  proof (cases "length acc < L")
    case True
    then have r: "replicate (L - length acc) (0::byte) = 0 # replicate (L - Suc (length acc)) 0"
      by (metis Suc_diff_Suc replicate_Suc)
    from True show ?thesis
      by (simp add: store_byte_def min_def r list_update_append)
  next
    case False
    then show ?thesis by (simp add: store_byte_def min_def)
  qed
  then show ?case using Cons.IH [of "acc @ [b]"] by simp
qed

lemma store_fold:
  "snd (fold (\<lambda>b st. store_byte L st b) bs (0, replicate L 0)) =
   take L bs @ replicate (L - length bs) 0"
  using store_fold_general [of L bs "[]"] by simp

lemma endsWith_set: "endsWith xs suf \<Longrightarrow> set suf \<subseteq> set xs"
  unfolding endsWith_def by (metis set_drop_subset)

lemma endsWith_append: "endsWith (xs @ ys) ys"
  by (simp add: endsWith_def)

lemma not_endsWith_eq: "eq_sign \<notin> set xs \<Longrightarrow> \<not> endsWith xs [eq_sign]"
  using endsWith_set [of xs "[eq_sign]"] by auto

lemma not_endsWith_eq2:
  assumes "eq_sign \<notin> set xs"
  shows "\<not> endsWith (xs @ [eq_sign]) [eq_sign, eq_sign]"
proof
  assume e: "endsWith (xs @ [eq_sign]) [eq_sign, eq_sign]"
  then have l: "1 \<le> length xs" and d: "drop (length xs - 1) (xs @ [eq_sign]) = [eq_sign, eq_sign]"
    by (simp_all add: endsWith_def)
  from d have "drop (length xs - 1) xs @ [eq_sign] = [eq_sign, eq_sign]" by simp
  then have "drop (length xs - 1) xs = [eq_sign]" by simp
  then have "eq_sign \<in> set xs" by (metis in_set_dropD list.set_intros(1))
  with assms show False by simp
qed

lemma eq_notin_body: "length T = 64 \<Longrightarrow> eq_sign \<notin> set T \<Longrightarrow> eq_sign \<notin> set (enc_body T bs)"
  using enc_body_set [of T bs] by blast

lemma npad_cases:
  obtains q where "length bs = 3 * q" "npad (length bs) = 0"
  | q where "length bs = 3 * q + 1" "npad (length bs) = 2"
  | q where "length bs = 3 * q + 2" "npad (length bs) = 1"
proof -
  let ?n = "length bs"
  have n: "?n = 3 * (?n div 3) + ?n mod 3" by simp
  consider "?n mod 3 = 0" | "?n mod 3 = 1" | "?n mod 3 = 2" by linarith
  then show ?thesis
  proof cases
    case 1
    then show ?thesis using that(1) [of "?n div 3"] n by (simp add: npad_def)
  next
    case 2
    then show ?thesis using that(2) [of "?n div 3"] n by (simp add: npad_def)
  next
    case 3
    then show ?thesis using that(3) [of "?n div 3"] n by (simp add: npad_def)
  qed
qed

lemma outputLen_enc:
  assumes T: "length T = 64" and E: "eq_sign \<notin> set T"
  shows "outputLen_of (enc_list T bs) = length bs"
proof -
  note nb = eq_notin_body [OF T E, of bs]
  show ?thesis
  proof (cases bs rule: npad_cases)
    case (1 q)
    then have "enc_list T bs = enc_body T bs" by (simp add: enc_list_body)
    moreover have "\<not> endsWith (enc_body T bs) [eq_sign, eq_sign]"
      using endsWith_set [of "enc_body T bs" "[eq_sign, eq_sign]"] nb by auto
    ultimately show ?thesis
      using 1 by (simp add: outputLen_of_def not_endsWith_eq [OF nb] length_enc_body)
  next
    case (2 q)
    then have e: "enc_list T bs = enc_body T bs @ [eq_sign, eq_sign]"
      by (simp add: enc_list_body numeral_2_eq_2)
    have "endsWith (enc_list T bs) [eq_sign, eq_sign]" unfolding e by (rule endsWith_append)
    then show ?thesis
      using 2 by (simp add: outputLen_of_def length_enc_list)
  next
    case (3 q)
    then have e: "enc_list T bs = enc_body T bs @ [eq_sign]" by (simp add: enc_list_body)
    have a: "endsWith (enc_list T bs) [eq_sign]" unfolding e by (rule endsWith_append)
    have b: "\<not> endsWith (enc_list T bs) [eq_sign, eq_sign]"
      unfolding e by (rule not_endsWith_eq2 [OF nb])
    show ?thesis
      using 3 a b by (simp add: outputLen_of_def length_enc_list)
  qed
qed

lemma takeWhile_body:
  "eq_sign \<notin> set xs \<Longrightarrow> takeWhile (\<lambda>c. c \<noteq> eq_sign) (xs @ replicate k eq_sign) = xs"
proof -
  assume a: "eq_sign \<notin> set xs"
  then have x: "takeWhile (\<lambda>c. c \<noteq> eq_sign) xs = xs"
    by auto
  show ?thesis
  proof (cases k)
    case 0
    then show ?thesis using x by simp
  next
    case (Suc j)
    then show ?thesis using x by (simp add: takeWhile_tail)
  qed
qed

lemma pad_input_enc_list:
  assumes T: "length T = 64" and E: "eq_sign \<notin> set T"
  shows "pad_input l (enc_list T bs) = Inr (enc_list T bs, False)"
proof -
  note nb = eq_notin_body [OF T E, of bs]
  have m: "length (enc_list T bs) mod 4 = 0" by (simp add: length_enc_list)
  have tw: "length (takeWhile (\<lambda>c. c \<noteq> eq_sign) (enc_list T bs)) = length (enc_body T bs)"
    by (simp add: enc_list_body takeWhile_body [OF nb])
  have "drop (length (enc_body T bs)) (enc_list T bs) = replicate (npad (length bs)) eq_sign"
    by (simp add: enc_list_body)
  moreover have "npad (length bs) = 0 \<or> npad (length bs) = 1 \<or> npad (length bs) = 2"
    by (simp add: npad_def)
  ultimately have tail: "eq_sign \<in> set (enc_list T bs) \<Longrightarrow>
      drop (length (enc_body T bs)) (enc_list T bs) = [eq_sign]
      \<or> drop (length (enc_body T bs)) (enc_list T bs) = [eq_sign, eq_sign]"
    using nb by (auto simp add: enc_list_body numeral_2_eq_2)
  show ?thesis
    using tail by (auto simp add: pad_input_def Let_def m indexOf_eq_def tw)
qed

lemma pad_input_enc_body:
  assumes T: "length T = 64" and E: "eq_sign \<notin> set T"
  shows "pad_input l (enc_body T bs) = Inr (enc_list T bs, \<not> l \<and> npad (length bs) \<noteq> 0)"
proof -
  note nb = eq_notin_body [OF T E, of bs]
  show ?thesis
  proof (cases bs rule: npad_cases)
    case (1 q)
    have "length (enc_body T bs) = (4 * (3 * q) + 2) div 3"
      by (simp only: length_enc_body 1(1))
    also have "\<dots> = 4 * q" by presburger
    finally have m: "length (enc_body T bs) mod 4 = 0" by presburger
    show ?thesis
      using 1 nb by (simp add: pad_input_def Let_def m indexOf_eq_def enc_list_body)
  next
    case (2 q)
    have "length (enc_body T bs) = (4 * (3 * q + 1) + 2) div 3"
      by (simp only: length_enc_body 2(1))
    also have "\<dots> = 4 * q + 2" by presburger
    finally have m: "length (enc_body T bs) mod 4 = 2" by presburger
    show ?thesis
      using 2 by (simp add: pad_input_def Let_def m enc_list_body)
  next
    case (3 q)
    have "length (enc_body T bs) = (4 * (3 * q + 2) + 2) div 3"
      by (simp only: length_enc_body 3(1))
    also have "\<dots> = 4 * q + 3" by presburger
    finally have m: "length (enc_body T bs) mod 4 = 3" by presburger
    show ?thesis
      using 3 by (simp add: pad_input_def Let_def m enc_list_body)
  qed
qed

lemma decode_loop_enc_all:
  assumes T: "length T = 64" and E: "eq_sign \<notin> set T" and K: "\<forall>k<64. lk (T ! k) = Some k"
  shows "decode_loop lk (enc_list T bs) (length (enc_list T bs)) (length bs) 0
           (0, replicate (length bs) 0) = Inr bs"
proof -
  let ?z = "replicate (npad (length bs)) (0::byte)"
  have "decode_loop lk (enc_list T bs) (length (enc_list T bs)) (length bs) 0
          (0, replicate (length bs) 0) =
        Inr (snd (fold (\<lambda>b st. store_byte (length bs) st b) (bs @ ?z)
                    (0, replicate (length bs) 0)))"
    using decode_loop_enc [OF T E K, of "[]" bs "length bs" "(0, replicate (length bs) 0)"]
    by (simp only: append_Nil list.size)
  also have "snd (fold (\<lambda>b st. store_byte (length bs) st b) (bs @ ?z)
                    (0, replicate (length bs) 0)) =
             take (length bs) (bs @ ?z) @ replicate (length bs - length (bs @ ?z)) 0"
    by (rule store_fold)
  also have "\<dots> = bs" by simp
  finally show ?thesis .
qed

lemma decode_cleaned_enc_list:
  assumes T: "length T = 64" and E: "eq_sign \<notin> set T" and K: "\<forall>k<64. lk (T ! k) = Some k"
  shows "decode_cleaned lk alph l (enc_list T bs) = Inr bs"
  by (simp add: decode_cleaned_def pad_input_enc_list [OF T E] Let_def outputLen_enc [OF T E]
      decode_loop_enc_all [OF T E K])

lemma decode_cleaned_enc_body:
  assumes T: "length T = 64" and E: "eq_sign \<notin> set T" and K: "\<forall>k<64. lk (T ! k) = Some k"
  shows "decode_cleaned lk T l (enc_body T bs) = Inr bs"
proof -
  have "strip_trailing_eq (encodeBytesToBase64Raw bs T) = enc_body T bs"
    by (simp add: raw_eq_enc_list [OF T] enc_list_body strip_trailing_replicate
        eq_notin_body [OF T E])
  then show ?thesis
    by (simp add: decode_cleaned_def pad_input_enc_body [OF T E] Let_def outputLen_enc [OF T E]
        decode_loop_enc_all [OF T E K])
qed

lemma ALPH_eq: "B64_STD_ALPH = B64_STD" "B64_URL_ALPH = B64_URL"
  by (simp_all add: B64_STD_ALPH_def B64_STD_def B64_URL_ALPH_def B64_URL_def)

lemma STD_inverts: "\<forall>k<64. B64_STD_LOOKUP (B64_STD ! k) = Some k"
  using createLookupTable_nth [OF distinct_STD] by (simp add: B64_STD_LOOKUP_def ALPH_eq len_STD)

lemma URL_inverts: "\<forall>k<64. B64_URL_LOOKUP (B64_URL ! k) = Some k"
  using createLookupTable_nth [OF distinct_URL] by (simp add: B64_URL_LOOKUP_def ALPH_eq len_URL)

lemma ws_STD: "\<forall>c\<in>set B64_STD. \<not> is_ws c"
  by (simp add: B64_STD_def js_def is_ws_def)

lemma ws_URL: "\<forall>c\<in>set B64_URL. \<not> is_ws c"
  by (simp add: B64_URL_def js_def is_ws_def)

lemma ws_eq: "\<not> is_ws eq_sign"
  by (simp add: eq_sign_def is_ws_def)

lemma url_in_STD: "of_char CHR ''-'' \<notin> set B64_STD" "of_char CHR ''_'' \<notin> set B64_STD"
  by (simp_all add: B64_STD_def js_def)

lemma std_in_URL: "of_char CHR ''+'' \<notin> set B64_URL" "of_char CHR ''/'' \<notin> set B64_URL"
  by (simp_all add: B64_URL_def js_def)

lemma hasUrlChars_iff:
  "hasUrlChars xs \<longleftrightarrow> of_char CHR ''-'' \<in> set xs \<or> of_char CHR ''_'' \<in> set xs"
  by (auto simp add: hasUrlChars_def list_ex_iff)

lemma hasStdChars_iff:
  "hasStdChars xs \<longleftrightarrow> of_char CHR ''+'' \<in> set xs \<or> of_char CHR ''/'' \<in> set xs"
  by (auto simp add: hasStdChars_def list_ex_iff)

lemma set_enc_list: "set (enc_list T bs) \<subseteq> set (enc_body T bs) \<union> {eq_sign}"
  by (auto simp add: enc_list_body)

lemma url_std_nth:
  assumes j: "j < 64" and a: "B64_URL ! j \<noteq> of_char CHR ''-''" and b: "B64_URL ! j \<noteq> of_char CHR ''_''"
  shows "B64_URL ! j = B64_STD ! j"
proof -
  have t: "take 62 B64_URL = take 62 B64_STD" by (simp add: B64_URL_def B64_STD_def js_def)
  have "B64_URL ! 62 = of_char CHR ''-''" "B64_URL ! 63 = of_char CHR ''_''"
    by (simp_all add: B64_URL_def js_def)
  with a b have "j \<noteq> 62" "j \<noteq> 63" by auto
  with j have "j < 62" by simp
  then have "B64_URL ! j = take 62 B64_URL ! j" "B64_STD ! j = take 62 B64_STD ! j" by simp_all
  with t show ?thesis by simp
qed

lemma sym_url_std:
  assumes "sym B64_URL k t \<noteq> of_char CHR ''-''" and "sym B64_URL k t \<noteq> of_char CHR ''_''"
  shows "sym B64_URL k t = sym B64_STD k t"
  using assms url_std_nth [OF and63_less [of "drop_bit k t"]] by (simp add: sym_def)

lemma enc_body_url_std_gen:
  "T = B64_URL \<Longrightarrow> \<not> hasUrlChars (enc_body T bs) \<Longrightarrow> enc_body T bs = enc_body B64_STD bs"
proof (induction T bs rule: enc_body.induct)
  case (1 T)
  show ?case by simp
next
  case (2 T a)
  from "2.prems"(2) have
    "sym B64_URL 18 (pack a 0 0) \<noteq> of_char CHR ''-''" "sym B64_URL 18 (pack a 0 0) \<noteq> of_char CHR ''_''"
    "sym B64_URL 12 (pack a 0 0) \<noteq> of_char CHR ''-''" "sym B64_URL 12 (pack a 0 0) \<noteq> of_char CHR ''_''"
    unfolding "2.prems"(1) hasUrlChars_iff by auto
  then have "sym B64_URL 18 (pack a 0 0) = sym B64_STD 18 (pack a 0 0)"
    "sym B64_URL 12 (pack a 0 0) = sym B64_STD 12 (pack a 0 0)"
    by (blast intro: sym_url_std)+
  then show ?case unfolding "2.prems"(1) by simp
next
  case (3 T a b)
  from "3.prems"(2) have
    "sym B64_URL 18 (pack a b 0) \<noteq> of_char CHR ''-''" "sym B64_URL 18 (pack a b 0) \<noteq> of_char CHR ''_''"
    "sym B64_URL 12 (pack a b 0) \<noteq> of_char CHR ''-''" "sym B64_URL 12 (pack a b 0) \<noteq> of_char CHR ''_''"
    "sym B64_URL 6 (pack a b 0) \<noteq> of_char CHR ''-''" "sym B64_URL 6 (pack a b 0) \<noteq> of_char CHR ''_''"
    unfolding "3.prems"(1) hasUrlChars_iff by auto
  then have "sym B64_URL 18 (pack a b 0) = sym B64_STD 18 (pack a b 0)"
    "sym B64_URL 12 (pack a b 0) = sym B64_STD 12 (pack a b 0)"
    "sym B64_URL 6 (pack a b 0) = sym B64_STD 6 (pack a b 0)"
    by (blast intro: sym_url_std)+
  then show ?case unfolding "3.prems"(1) by simp
next
  case (4 T a b c rest)
  from "4.prems"(2) have
    "sym B64_URL 18 (pack a b c) \<noteq> of_char CHR ''-''" "sym B64_URL 18 (pack a b c) \<noteq> of_char CHR ''_''"
    "sym B64_URL 12 (pack a b c) \<noteq> of_char CHR ''-''" "sym B64_URL 12 (pack a b c) \<noteq> of_char CHR ''_''"
    "sym B64_URL 6 (pack a b c) \<noteq> of_char CHR ''-''" "sym B64_URL 6 (pack a b c) \<noteq> of_char CHR ''_''"
    "sym B64_URL 0 (pack a b c) \<noteq> of_char CHR ''-''" "sym B64_URL 0 (pack a b c) \<noteq> of_char CHR ''_''"
    and r: "\<not> hasUrlChars (enc_body T rest)"
    unfolding "4.prems"(1) hasUrlChars_iff by auto
  then have e: "sym B64_URL 18 (pack a b c) = sym B64_STD 18 (pack a b c)"
    "sym B64_URL 12 (pack a b c) = sym B64_STD 12 (pack a b c)"
    "sym B64_URL 6 (pack a b c) = sym B64_STD 6 (pack a b c)"
    "sym B64_URL 0 (pack a b c) = sym B64_STD 0 (pack a b c)"
    by (blast intro: sym_url_std)+
  have "enc_body T rest = enc_body B64_STD rest" by (rule "4.IH" [OF "4.prems"(1) r])
  with e show ?case unfolding "4.prems"(1) by simp
qed

lemma enc_body_url_std:
  "\<not> hasUrlChars (enc_body B64_URL bs) \<Longrightarrow> enc_body B64_URL bs = enc_body B64_STD bs"
  by (rule enc_body_url_std_gen [OF refl])

lemma decode_core:
  assumes tx: "enc = enc_list T B \<or> enc = enc_body T B"
    and al: "(T = B64_STD \<and> \<not> hasUrlChars enc)
             \<or> (T = B64_URL \<and> hasUrlChars enc \<and> \<not> hasStdChars enc)"
    and ws: "strip_ws enc = enc"
  shows "decodeBase64ToBytes enc dopts = Inr B"
proof -
  from al have d: "detected_alph enc = T"
    and m: "\<not> (hasUrlChars enc \<and> hasStdChars enc)"
    by (auto simp add: detected_alph_def ALPH_eq)
  from al have p: "length T = 64 \<and> eq_sign \<notin> set T \<and> (\<forall>k<64. detected_lookup enc (T ! k) = Some k)"
    using STD_inverts URL_inverts
    by (auto simp add: detected_lookup_def len_STD len_URL eq_notin_STD eq_notin_URL)
  then have T: "length T = 64" and E: "eq_sign \<notin> set T"
    and K: "\<forall>k<64. detected_lookup enc (T ! k) = Some k" by simp_all
  have "decode_cleaned (detected_lookup enc) T (loose dopts = Some True) enc = Inr B"
    using tx decode_cleaned_enc_list [OF T E K] decode_cleaned_enc_body [OF T E K] by auto
  then show ?thesis
    using m by (simp add: decode_eq ws d)
qed

lemma strip_ws_id: "\<forall>c\<in>set t. \<not> is_ws c \<Longrightarrow> strip_ws t = t"
  by (simp add: strip_ws_def filter_id_conv)

section \<open>Claims about the encoder\<close>

text \<open>
  C3, as stated: with padding kept, the encoding of every buffer whose length is 1 mod 3
  ends with the two characters of the final byte followed by \<open>==\<close>. This fails when a
  line wrap is asked for: with the width 3 the one byte \<open>a\<close> is encoded as \<open>YQ=\<close>, a line
  break and \<open>=\<close>, which does not end with \<open>==\<close>.
\<close>

theorem tail_padding_counterexample:
  "length [0x61 :: byte] mod 3 = 1
   \<and> \<not> strips_padding
        (Some \<lparr>variant = None, padding = Some Preserve, wrap = Some (WrapWidth (Finite 3)),
               normalize = None\<rparr>)
   \<and> encodeBase64FromBytes [0x61]
     (Some \<lparr>variant = None, padding = Some Preserve, wrap = Some (WrapWidth (Finite 3)),
            normalize = None\<rparr>)
     = js ''YQ='' @ [line_break] @ js ''=''
   \<and> \<not> endsWith
        (encodeBase64FromBytes [0x61]
           (Some \<lparr>variant = None, padding = Some Preserve, wrap = Some (WrapWidth (Finite 3)),
                  normalize = None\<rparr>))
        [eq_sign, eq_sign]"
proof -
  have a: "encodeBase64FromBytes [0x61]
     (Some \<lparr>variant = None, padding = Some Preserve, wrap = Some (WrapWidth (Finite 3)),
            normalize = None\<rparr>)
     = js ''YQ='' @ [line_break] @ js ''=''"
    by code_simp
  show ?thesis
    unfolding a
    by (simp add: endsWith_def js_def eq_sign_def line_break_def strips_padding_def)
qed

text \<open>
  C3, amended. With padding kept and no line wrap, the encoding of a buffer whose length is
  1 mod 3 ends with the two characters of the final byte followed by \<open>==\<close>; for length
  2 mod 3 it ends with three characters followed by \<open>=\<close>; for length 0 mod 3 the output
  consists of complete 4-character groups only and holds no pad character. The characters are those of
  RFC 4648, written on the bytes themselves. In particular the encodings of \<open>a\<close>, \<open>ab\<close>
  and \<open>abc\<close> are \<open>YQ==\<close>, \<open>YWI=\<close> and \<open>YWJj\<close>.
\<close>

theorem tail_padding:
  assumes keep: "\<not> strips_padding options" and nw: "no_wrap options"
    and full: "length bs mod 3 = 0"
  shows "encodeBase64FromBytes (bs @ [a]) options =
           encodeBase64FromBytes bs options
             @ [table_of options ! unat (drop_bit 2 a),
                table_of options ! unat (push_bit 4 (a AND 3)), eq_sign, eq_sign]
       \<and> encodeBase64FromBytes (bs @ [a, b]) options =
           encodeBase64FromBytes bs options
             @ [table_of options ! unat (drop_bit 2 a),
                table_of options ! unat (push_bit 4 (a AND 3) OR drop_bit 4 b),
                table_of options ! unat (push_bit 2 (b AND 15)), eq_sign]
       \<and> encodeBase64FromBytes (bs @ [a, b, c]) options =
           encodeBase64FromBytes bs options
             @ [table_of options ! unat (drop_bit 2 a),
                table_of options ! unat (push_bit 4 (a AND 3) OR drop_bit 4 b),
                table_of options ! unat (push_bit 2 (b AND 15) OR drop_bit 6 c),
                table_of options ! unat (c AND 63)]
       \<and> eq_sign \<notin> set (encodeBase64FromBytes bs options)
       \<and> encodeBase64FromBytes [] options = []
       \<and> encodeBase64FromBytes [0x61] None = js ''YQ==''
       \<and> encodeBase64FromBytes [0x61, 0x62] None = js ''YWI=''
       \<and> encodeBase64FromBytes [0x61, 0x62, 0x63] None = js ''YWJj''"
proof -
  have e: "encodeBase64FromBytes xs options = enc_list (table_of options) xs" for xs
    by (rule encode_unstripped [OF keep nw])
  have ap: "enc_list (table_of options) (bs @ ys) =
            enc_list (table_of options) bs @ enc_list (table_of options) ys" for ys
    by (rule enc_list_append [OF full])
  have "npad (length bs) = 0" using full by (simp add: npad_def)
  then have noeq: "eq_sign \<notin> set (enc_list (table_of options) bs)"
    by (simp add: enc_list_body eq_notin_enc_body)
  have d: "encodeBase64FromBytes xs None = enc_list B64_STD xs" for xs
    using encode_unstripped [of None xs] by (simp add: strips_padding_def no_wrap_def table_of_def)
  have x1: "encodeBase64FromBytes [0x61] None = js ''YQ==''"
    unfolding d by (simp add: sym_def pack_def B64_STD_def js_def eq_sign_def)
  have x2: "encodeBase64FromBytes [0x61, 0x62] None = js ''YWI=''"
    unfolding d by (simp add: sym_def pack_def B64_STD_def js_def eq_sign_def)
  have x3: "encodeBase64FromBytes [0x61, 0x62, 0x63] None = js ''YWJj''"
    unfolding d by (simp add: sym_def pack_def B64_STD_def js_def eq_sign_def)
  have c1: "enc_list (table_of options) [a] =
            [table_of options ! unat (drop_bit 2 a),
             table_of options ! unat (push_bit 4 (a AND 3)), eq_sign, eq_sign]"
    by (simp add: sym_18 sym_12)
  have c2: "enc_list (table_of options) [a, b] =
            [table_of options ! unat (drop_bit 2 a),
             table_of options ! unat (push_bit 4 (a AND 3) OR drop_bit 4 b),
             table_of options ! unat (push_bit 2 (b AND 15)), eq_sign]"
    by (simp add: sym_18 sym_12 sym_6)
  have c3: "enc_list (table_of options) [a, b, c] =
            [table_of options ! unat (drop_bit 2 a),
             table_of options ! unat (push_bit 4 (a AND 3) OR drop_bit 4 b),
             table_of options ! unat (push_bit 2 (b AND 15) OR drop_bit 6 c),
             table_of options ! unat (c AND 63)]"
    by (simp add: sym_18 sym_12 sym_6 sym_0)
  have c0: "enc_list (table_of options) [] = []" by simp
  show ?thesis
    unfolding e ap c1 c2 c3 c0 using noeq x1 x2 x3 by (intro conjI) (rule refl | assumption)+
qed

theorem tail_padding_witness:
  "encodeBase64FromBytes ([0x68, 0x65, 0x6c] @ [0x6c]) None = js ''aGVsbA==''
   \<and> encodeBase64FromBytes ([0x68, 0x65, 0x6c] @ [0x6c, 0x6f]) None = js ''aGVsbG8=''
   \<and> encodeBase64FromBytes ([0x68, 0x65, 0x6c] @ [0x6c, 0x6f, 0x21]) None = js ''aGVsbG8h''"
proof -
  have k: "\<not> strips_padding None" by (simp add: strips_padding_def)
  have w: "no_wrap None" by (simp add: no_wrap_def)
  have f: "length [0x68, 0x65, 0x6c :: byte] mod 3 = 0" by simp
  have "encodeBase64FromBytes [0x68, 0x65, 0x6c] None = enc_list B64_STD [0x68, 0x65, 0x6c]"
    using encode_unstripped [of None "[0x68, 0x65, 0x6c]"]
    by (simp add: strips_padding_def no_wrap_def table_of_def)
  then have b: "encodeBase64FromBytes [0x68, 0x65, 0x6c] None = js ''aGVs''"
    by (simp add: sym_def pack_def B64_STD_def js_def)
  have t: "table_of None = B64_STD" by (simp add: table_of_def)
  show ?thesis
    using tail_padding [OF k w f, of "0x6c" "0x6f" "0x21"]
    unfolding b t B64_STD_def js_def eq_sign_def
    by simp
qed

text \<open>
  C9. With default options the batched encoder returns the same string as the decoder's
  straight-line re-encoder on the standard alphabet: the batches of \<open>0x8000\<close> bytes are
  not observable.
\<close>

theorem batched_equals_raw:
  "encodeBase64FromBytes B None = encodeBytesToBase64Raw B B64_STD_ALPH
   \<and> encodeBase64FromBytes B (Some \<lparr>variant = None, padding = None, wrap = None, normalize = None\<rparr>)
       = encodeBytesToBase64Raw B B64_STD_ALPH
   \<and> encodeBase64FromBytes B
        (Some \<lparr>variant = Some Standard, padding = Some Preserve, wrap = Some WrapFalse,
               normalize = None\<rparr>)
       = encodeBytesToBase64Raw B B64_STD_ALPH"
proof -
  have a: "B64_STD_ALPH = B64_STD" by (simp add: B64_STD_ALPH_def B64_STD_def)
  have r: "encodeBytesToBase64Raw B B64_STD_ALPH = enc_list B64_STD B"
    unfolding a by (rule raw_eq_enc_list [OF len_STD])
  have e: "\<not> strips_padding options \<Longrightarrow> no_wrap options \<Longrightarrow> table_of options = B64_STD
           \<Longrightarrow> encodeBase64FromBytes B options = enc_list B64_STD B" for options
    using encode_unstripped [of options B] by simp
  show ?thesis
    unfolding r
    by (intro conjI e) (simp_all add: strips_padding_def no_wrap_def table_of_def)
qed

theorem batched_equals_raw_witness:
  "encodeBase64FromBytes [0x61, 0x62, 0x63, 0xff] None = js ''YWJj/w==''
   \<and> encodeBytesToBase64Raw [0x61, 0x62, 0x63, 0xff] B64_STD_ALPH = js ''YWJj/w==''"
proof -
  have "encodeBase64FromBytes [0x61, 0x62, 0x63, 0xff] None = enc_list B64_STD [0x61, 0x62, 0x63, 0xff]"
    using encode_unstripped [of None "[0x61, 0x62, 0x63, 0xff]"]
    by (simp add: strips_padding_def no_wrap_def table_of_def)
  then have "encodeBase64FromBytes [0x61, 0x62, 0x63, 0xff] None = js ''YWJj/w==''"
    by (simp add: sym_def pack_def B64_STD_def js_def eq_sign_def)
  then show ?thesis
    using batched_equals_raw [of "[0x61, 0x62, 0x63, 0xff]"] by simp
qed

text \<open>
  C10. Without line wrap, the encoding of \<open>n\<close> bytes has length \<open>4 * ceil(n / 3)\<close> when
  padding is kept and \<open>ceil(4 * n / 3)\<close> when it is stripped, and the stripped output does
  not end with a pad character.
\<close>

theorem encoded_length:
  assumes nw: "no_wrap options"
  shows "(\<not> strips_padding options \<longrightarrow>
            length (encodeBase64FromBytes bs options) = 4 * ((length bs + 2) div 3))
       \<and> (strips_padding options \<longrightarrow>
            length (encodeBase64FromBytes bs options) = (4 * length bs + 2) div 3
            \<and> \<not> endsWith (encodeBase64FromBytes bs options) [eq_sign])"
proof (intro conjI impI)
  assume "\<not> strips_padding options"
  then show "length (encodeBase64FromBytes bs options) = 4 * ((length bs + 2) div 3)"
    by (simp add: encode_unstripped [OF _ nw] length_enc_list)
next
  assume s: "strips_padding options"
  then show "length (encodeBase64FromBytes bs options) = (4 * length bs + 2) div 3"
    by (simp add: encode_stripped [OF _ nw] strip_enc_list length_enc_body)
next
  assume s: "strips_padding options"
  have e: "encodeBase64FromBytes bs options = enc_body (table_of options) bs"
    by (simp add: encode_stripped [OF s nw] strip_enc_list)
  show "\<not> endsWith (encodeBase64FromBytes bs options) [eq_sign]"
  proof
    assume "endsWith (encodeBase64FromBytes bs options) [eq_sign]"
    then have "drop (length (enc_body (table_of options) bs) - 1) (enc_body (table_of options) bs) = [eq_sign]"
      by (simp add: endsWith_def e)
    then have "eq_sign \<in> set (enc_body (table_of options) bs)"
      by (metis in_set_dropD list.set_intros(1))
    then show False using eq_notin_enc_body by blast
  qed
qed

theorem encoded_length_witness:
  "length (encodeBase64FromBytes [0x61, 0x62, 0x63, 0xff]
             (Some \<lparr>variant = Some Url, padding = Some Strip, wrap = None, normalize = None\<rparr>)) = 6
   \<and> \<not> endsWith (encodeBase64FromBytes [0x61, 0x62, 0x63, 0xff]
             (Some \<lparr>variant = Some Url, padding = Some Strip, wrap = None, normalize = None\<rparr>))
          [eq_sign]
   \<and> length (encodeBase64FromBytes [0x61, 0x62, 0x63, 0xff] None) = 8"
proof -
  let ?o = "Some \<lparr>variant = Some Url, padding = Some Strip, wrap = None, normalize = None\<rparr>"
  have s: "strips_padding ?o" "no_wrap ?o" by (simp_all add: strips_padding_def no_wrap_def)
  have n: "\<not> strips_padding None" "no_wrap None" by (simp_all add: strips_padding_def no_wrap_def)
  show ?thesis
    using encoded_length [OF s(2), of "[0x61, 0x62, 0x63, 0xff]"] s(1)
      encoded_length [OF n(2), of "[0x61, 0x62, 0x63, 0xff]"] n(1)
    by simp
qed

section \<open>Claims about the line wrap\<close>




section \<open>Claims about the decoder\<close>

text \<open>
  C1. For every byte buffer, both variants and both padding choices, without line wrap,
  decoding the encoded text succeeds and returns the buffer, whatever the decode options;
  the decoder detects the variant by itself. The empty buffer and every length mod 3 are
  included.
\<close>

theorem roundtrip:
  assumes nw: "no_wrap options"
  shows "decodeBase64ToBytes (encodeBase64FromBytes B options) dopts = Inr B"
proof -
  define T where "T = table_of options"
  define enc where "enc = encodeBase64FromBytes B options"
  have Tc: "T = B64_STD \<or> T = B64_URL" by (simp add: T_def table_of_def)
  then have T64: "length T = 64" by (auto simp add: len_STD len_URL)
  have tx: "enc = enc_list T B \<or> enc = enc_body T B"
    using encode_unstripped [OF _ nw, of B] encode_stripped [OF _ nw, of B] strip_enc_list [of options B]
    unfolding enc_def T_def by (cases "strips_padding options") simp_all
  have sub: "set enc \<subseteq> set T \<union> {eq_sign}"
    using tx enc_body_set [OF T64, of B] set_enc_list [of T B] by auto
  have ws: "strip_ws enc = enc"
  proof (rule strip_ws_id)
    show "\<forall>c\<in>set enc. \<not> is_ws c"
      using sub Tc ws_STD ws_URL ws_eq by auto
  qed
  from Tc show ?thesis
  proof
    assume S: "T = B64_STD"
    then have "\<not> hasUrlChars enc"
      using sub url_in_STD by (auto simp add: hasUrlChars_iff eq_sign_def)
    with S have "decodeBase64ToBytes enc dopts = Inr B"
      by (intro decode_core [OF tx _ ws]) simp
    then show ?thesis by (simp add: enc_def)
  next
    assume U: "T = B64_URL"
    then have ns: "\<not> hasStdChars enc"
      using sub std_in_URL by (auto simp add: hasStdChars_iff eq_sign_def)
    show ?thesis
    proof (cases "hasUrlChars enc")
      case True
      with U ns have "decodeBase64ToBytes enc dopts = Inr B"
        by (intro decode_core [OF tx _ ws]) simp
      then show ?thesis by (simp add: enc_def)
    next
      case False
      have "set (enc_body T B) \<subseteq> set enc" using tx by (auto simp add: enc_list_body)
      with False have "\<not> hasUrlChars (enc_body B64_URL B)"
        unfolding U by (auto simp add: hasUrlChars_iff)
      then have "enc_body B64_URL B = enc_body B64_STD B" by (rule enc_body_url_std)
      with tx U have tx': "enc = enc_list B64_STD B \<or> enc = enc_body B64_STD B"
        by (auto simp add: enc_list_body)
      from False have "decodeBase64ToBytes enc dopts = Inr B"
        by (intro decode_core [OF tx' _ ws]) simp
      then show ?thesis by (simp add: enc_def)
    qed
  qed
qed

theorem roundtrip_witness:
  "decodeBase64ToBytes
     (encodeBase64FromBytes [0, 1, 255, 128, 64]
        (Some \<lparr>variant = Some Url, padding = Some Strip, wrap = None, normalize = None\<rparr>))
     strict_opts = Inr [0, 1, 255, 128, 64]
   \<and> decodeBase64ToBytes (encodeBase64FromBytes [] None) strict_opts = Inr []"
proof -
  have a: "no_wrap (Some \<lparr>variant = Some Url, padding = Some Strip, wrap = None, normalize = None\<rparr>)"
    by (simp add: no_wrap_def)
  have b: "no_wrap None" by (simp add: no_wrap_def)
  show ?thesis
    using roundtrip [OF a, of "[0, 1, 255, 128, 64]" strict_opts] roundtrip [OF b, of "[]" strict_opts]
    by simp
qed

text \<open>
  C2. For an input whose cleaned length is 2 or 3 mod 4, strict decoding is loose decoding
  followed by the canonical check: an error of the loose decoding (mixed alphabets, invalid
  character) is the error of the strict one, and when the loose decoding returns bytes, the
  strict one returns them exactly when their re-encoding on the detected alphabet, pad
  characters removed, is the cleaned input, and fails as non-canonical otherwise. The text
  \<open>YR\<close> has stray low bits in its last character: it decodes loosely and is refused
  strictly, while \<open>YQ\<close> is accepted.
\<close>

theorem strict_canonical:
  assumes m: "length (strip_ws input) mod 4 = 2 \<or> length (strip_ws input) mod 4 = 3"
    and s: "loose opts \<noteq> Some True" and l: "loose opts' = Some True"
  shows "decodeBase64ToBytes input opts =
         (case decodeBase64ToBytes input opts' of
            Inl e \<Rightarrow> Inl e
          | Inr bs \<Rightarrow>
              if strip_trailing_eq (encodeBytesToBase64Raw bs (detected_alph (strip_ws input)))
                   = strip_ws input
              then Inr bs else Inl NonCanonical)"
proof -
  let ?c = "strip_ws input"
  have p: "pad_input False ?c = Inr (?c @ replicate (4 - length ?c mod 4) eq_sign, True)"
    "pad_input True ?c = Inr (?c @ replicate (4 - length ?c mod 4) eq_sign, False)"
    using pad_input_23 [OF m, of False] pad_input_23 [OF m, of True] by simp_all
  show ?thesis
  proof (cases "hasUrlChars ?c \<and> hasStdChars ?c")
    case True
    then show ?thesis by (simp add: decode_eq)
  next
    case False
    have strict: "decodeBase64ToBytes input opts =
                  decode_cleaned (detected_lookup ?c) (detected_alph ?c) False ?c"
      using s by (simp add: decode_eq False)
    have loose: "decodeBase64ToBytes input opts' =
                 decode_cleaned (detected_lookup ?c) (detected_alph ?c) True ?c"
      using l by (simp add: decode_eq False)
    show ?thesis
      unfolding strict loose
      by (simp add: decode_cleaned_def p Let_def split: sum.splits)
  qed
qed

theorem strict_canonical_witness:
  "length (strip_ws (js ''YR'')) mod 4 = 2
   \<and> decodeBase64ToBytes (js ''YR'') loose_opts = Inr [0x61]
   \<and> strip_trailing_eq (encodeBytesToBase64Raw [0x61] (detected_alph (strip_ws (js ''YR''))))
       = js ''YQ''
   \<and> decodeBase64ToBytes (js ''YR'') strict_opts = Inl NonCanonical
   \<and> decodeBase64ToBytes (js ''YQ'') strict_opts = Inr [0x61]"
proof -
  have m: "length (strip_ws (js ''YR'')) mod 4 = 2 \<or> length (strip_ws (js ''YR'')) mod 4 = 3"
    by code_simp
  have m2: "length (strip_ws (js ''YR'')) mod 4 = 2" by code_simp
  have s: "loose strict_opts \<noteq> Some True" by (simp add: strict_opts_def)
  have l: "loose loose_opts = Some True" by (simp add: loose_opts_def)
  have a: "decodeBase64ToBytes (js ''YR'') loose_opts = Inr [0x61]" by code_simp
  have r: "strip_trailing_eq (encodeBytesToBase64Raw [0x61] (detected_alph (strip_ws (js ''YR''))))
           = js ''YQ''" by code_simp
  have ne: "js ''YQ'' \<noteq> strip_ws (js ''YR'')" by code_simp
  have m': "length (strip_ws (js ''YQ'')) mod 4 = 2 \<or> length (strip_ws (js ''YQ'')) mod 4 = 3"
    by code_simp
  have a': "decodeBase64ToBytes (js ''YQ'') loose_opts = Inr [0x61]" by code_simp
  have r': "strip_trailing_eq (encodeBytesToBase64Raw [0x61] (detected_alph (strip_ws (js ''YQ''))))
           = strip_ws (js ''YQ'')" by code_simp
  have b: "decodeBase64ToBytes (js ''YR'') strict_opts = Inl NonCanonical"
    using strict_canonical [OF m s l] r ne by (simp add: a)
  have c: "decodeBase64ToBytes (js ''YQ'') strict_opts = Inr [0x61]"
    using strict_canonical [OF m' s l] r' by (simp add: a')
  show ?thesis using m2 a r b c by simp
qed

text \<open>
  C4, as stated: every input whose cleaned length is 1 mod 4 fails with a length error.
  The alphabet check comes first in the code, so such an input that mixes the two
  alphabets fails with the mixed-alphabet error instead.
\<close>

theorem length_error_counterexample:
  "length (strip_ws (js ''a+b-c'')) mod 4 = 1
   \<and> decodeBase64ToBytes (js ''a+b-c'') strict_opts \<noteq> Inl InvalidLength
   \<and> decodeBase64ToBytes (js ''a+b-c'') loose_opts \<noteq> Inl InvalidLength"
proof -
  have "length (strip_ws (js ''a+b-c'')) mod 4 = 1" by code_simp
  moreover have "decodeBase64ToBytes (js ''a+b-c'') strict_opts = Inl MixedAlphabets" by code_simp
  moreover have "decodeBase64ToBytes (js ''a+b-c'') loose_opts = Inl MixedAlphabets" by code_simp
  ultimately show ?thesis by simp
qed

text \<open>
  C4, amended. Every input whose cleaned length is 1 mod 4 fails in strict and in loose
  mode: with the mixed-alphabet error when it holds characters of both alphabets, with the
  length error otherwise. In particular \<open>Y\<close> fails with the length error in both modes.
\<close>

theorem length_one_fails:
  assumes "length (strip_ws input) mod 4 = 1"
  shows "decodeBase64ToBytes input opts =
         Inl (if hasUrlChars (strip_ws input) \<and> hasStdChars (strip_ws input)
              then MixedAlphabets else InvalidLength)"
proof -
  have "pad_input (loose opts = Some True) (strip_ws input) = Inl InvalidLength"
    by (rule pad_input_length1 [OF assms])
  then have "decode_cleaned lk alph (loose opts = Some True) (strip_ws input) = Inl InvalidLength"
    for lk alph
    by (simp add: decode_cleaned_def)
  then show ?thesis by (simp add: decode_eq)
qed

theorem length_one_fails_witness:
  "length (strip_ws (js ''Y'')) mod 4 = 1
   \<and> decodeBase64ToBytes (js ''Y'') strict_opts = Inl InvalidLength
   \<and> decodeBase64ToBytes (js ''Y'') loose_opts = Inl InvalidLength"
proof -
  have m: "length (strip_ws (js ''Y'')) mod 4 = 1" by code_simp
  have h: "\<not> hasUrlChars (strip_ws (js ''Y''))" by code_simp
  show ?thesis
    using m h length_one_fails [OF m, of strict_opts] length_one_fails [OF m, of loose_opts]
    by simp
qed

text \<open>
  C5. An input whose cleaned text holds one of \<open>-\<close>, \<open>_\<close> and one of \<open>+\<close>, \<open>/\<close> fails
  with the mixed-alphabet error, whatever the options; when it holds none of the four
  characters, it is decoded with the standard lookup table and alphabet.
\<close>

theorem mixed_alphabet:
  "((of_char CHR ''-'' \<in> set (strip_ws input) \<or> of_char CHR ''_'' \<in> set (strip_ws input))
      \<and> (of_char CHR ''+'' \<in> set (strip_ws input) \<or> of_char CHR ''/'' \<in> set (strip_ws input))
     \<longrightarrow> decodeBase64ToBytes input opts = Inl MixedAlphabets)
   \<and> (of_char CHR ''-'' \<notin> set (strip_ws input) \<and> of_char CHR ''_'' \<notin> set (strip_ws input)
      \<and> of_char CHR ''+'' \<notin> set (strip_ws input) \<and> of_char CHR ''/'' \<notin> set (strip_ws input)
     \<longrightarrow> decodeBase64ToBytes input opts =
         decode_cleaned B64_STD_LOOKUP B64_STD_ALPH (loose opts = Some True) (strip_ws input))"
proof (intro conjI impI)
  let ?c = "strip_ws input"
  assume "(of_char CHR ''-'' \<in> set ?c \<or> of_char CHR ''_'' \<in> set ?c)
          \<and> (of_char CHR ''+'' \<in> set ?c \<or> of_char CHR ''/'' \<in> set ?c)"
  then have "hasUrlChars ?c \<and> hasStdChars ?c"
    by (simp add: hasUrlChars_iff hasStdChars_iff)
  then show "decodeBase64ToBytes input opts = Inl MixedAlphabets"
    by (simp add: decode_eq)
next
  let ?c = "strip_ws input"
  assume "of_char CHR ''-'' \<notin> set ?c \<and> of_char CHR ''_'' \<notin> set ?c
          \<and> of_char CHR ''+'' \<notin> set ?c \<and> of_char CHR ''/'' \<notin> set ?c"
  then have "\<not> hasUrlChars ?c" by (simp add: hasUrlChars_iff)
  then show "decodeBase64ToBytes input opts =
             decode_cleaned B64_STD_LOOKUP B64_STD_ALPH (loose opts = Some True) ?c"
    by (simp add: decode_eq detected_lookup_def detected_alph_def)
qed

theorem mixed_alphabet_witness:
  "decodeBase64ToBytes (js ''ab+-'') strict_opts = Inl MixedAlphabets
   \<and> decodeBase64ToBytes (js ''ab+-'') loose_opts = Inl MixedAlphabets
   \<and> decodeBase64ToBytes (js ''YQ=='') strict_opts =
       decode_cleaned B64_STD_LOOKUP B64_STD_ALPH False (js ''YQ=='')"
proof -
  have s: "strip_ws (js ''ab+-'') = js ''ab+-''" "strip_ws (js ''YQ=='') = js ''YQ==''"
    by code_simp+
  have l: "loose strict_opts \<noteq> Some True" by (simp add: strict_opts_def)
  show ?thesis
    using mixed_alphabet [of "js ''ab+-''" strict_opts] mixed_alphabet [of "js ''ab+-''" loose_opts]
      mixed_alphabet [of "js ''YQ==''" strict_opts] l
    unfolding s by (simp add: js_def)
qed

text \<open>
  C6. The claim is that the invalid-character error identifies the position of the
  offending character, as the message \<open>Invalid Base64 character at position i\<close> says. The
  code reports the loop index \<open>i\<close>, the start of the 4-character group: the position
  reported is always a multiple of 4. For \<open>ab!d\<close> it is 0, the offending character being
  at position 2.
\<close>

theorem invalid_character_position:
  "(decodeBase64ToBytes input opts = Inl (InvalidCharacter p) \<longrightarrow> p mod 4 = 0)
   \<and> js ''ab!d'' ! 2 = of_char CHR ''!''
   \<and> decodeBase64ToBytes (js ''ab!d'') strict_opts = Inl (InvalidCharacter 0)
   \<and> decodeBase64ToBytes (js ''ab!d'') loose_opts = Inl (InvalidCharacter 0)"
proof -
  have "js ''ab!d'' ! 2 = of_char CHR ''!''" by (simp add: js_def)
  moreover have "decodeBase64ToBytes (js ''ab!d'') strict_opts = Inl (InvalidCharacter 0)"
    by code_simp
  moreover have "decodeBase64ToBytes (js ''ab!d'') loose_opts = Inl (InvalidCharacter 0)"
    by code_simp
  ultimately show ?thesis using invalid_character_group_start [of input opts p] by simp
qed

theorem invalid_character_position_witness:
  "js ''abcdab!d'' ! 6 = of_char CHR ''!''
   \<and> decodeBase64ToBytes (js ''abcdab!d'') loose_opts = Inl (InvalidCharacter 4)
   \<and> (4::nat) mod 4 = 0"
proof -
  have a: "js ''abcdab!d'' ! 6 = of_char CHR ''!''" by (simp add: js_def)
  have b: "decodeBase64ToBytes (js ''abcdab!d'') loose_opts = Inl (InvalidCharacter 4)"
    by code_simp
  show ?thesis
    using a b invalid_character_position [of "js ''abcdab!d''" loose_opts 4] by simp
qed

text \<open>
  C8. Decoding a text is decoding its cleaned text, so a text and the same text with white
  space inserted anywhere decode to the same result, bytes or error. In particular
  \<open>aGVs\nbG8=\<close> and \<open>aGVsbG8=\<close> both decode to the bytes of \<open>hello\<close>.
\<close>

theorem whitespace_insensitive:
  "decodeBase64ToBytes t opts = decodeBase64ToBytes (strip_ws t) opts
   \<and> (ws_inserted t t' \<longrightarrow> decodeBase64ToBytes t' opts = decodeBase64ToBytes t opts)
   \<and> decodeBase64ToBytes (js ''aGVs'' @ [line_break] @ js ''bG8='') strict_opts
       = Inr [104, 101, 108, 108, 111]
   \<and> decodeBase64ToBytes (js ''aGVsbG8='') strict_opts = Inr [104, 101, 108, 108, 111]"
proof (intro conjI impI)
  show "decodeBase64ToBytes t opts = decodeBase64ToBytes (strip_ws t) opts"
    by (simp only: decode_eq [of t] decode_eq [of "strip_ws t"] strip_ws_idem)
  show "decodeBase64ToBytes t' opts = decodeBase64ToBytes t opts" if "ws_inserted t t'"
    by (simp only: decode_eq [of t] decode_eq [of t'] ws_inserted_strip [OF that])
  show "decodeBase64ToBytes (js ''aGVs'' @ [line_break] @ js ''bG8='') strict_opts
        = Inr [104, 101, 108, 108, 111]" by code_simp
  show "decodeBase64ToBytes (js ''aGVsbG8='') strict_opts = Inr [104, 101, 108, 108, 111]"
    by code_simp
qed

theorem whitespace_insensitive_witness:
  "ws_inserted (js ''YWJj'') ([32] @ js ''YW'' @ [9, 13] @ js ''Jj'' @ [10])
   \<and> decodeBase64ToBytes ([32] @ js ''YW'' @ [9, 13] @ js ''Jj'' @ [10]) strict_opts
       = Inr [0x61, 0x62, 0x63]"
proof -
  have w: "is_ws 32" "is_ws 9" "is_ws 13" "is_ws 10" by (simp_all add: is_ws_def)
  have i: "ws_inserted (js ''YWJj'') ([32] @ js ''YW'' @ [9, 13] @ js ''Jj'' @ [10])"
    unfolding js_def by (simp add: w ws_inserted.intros)
  have d: "decodeBase64ToBytes (js ''YWJj'') strict_opts = Inr [0x61, 0x62, 0x63]" by code_simp
  show ?thesis
    using i d whitespace_insensitive [of "js ''YWJj''" strict_opts "[32] @ js ''YW'' @ [9, 13] @ js ''Jj'' @ [10]"]
    by simp
qed

end
